theory Spec2Isabelle
  imports Main "HOL-Library.Monad_Syntax" "HOL-Library.Multiset"
begin

unbundle bit_operations_syntax

section \<open>Integers, vectors and containers of the C++ code\<close>

text \<open>
  The values of the C++ \<open>int\<close> are integers; where the code multiplies or shifts sizes
  and sample counts (\<open>get_divider\<close>, \<open>set_samples\<close>) the result is reduced to 32 bits by
  \<open>wrap_int\<close>.  The coordinates and counts of tiles are computed without reduction: there
  model and code agree as long as no intermediate value leaves the range of \<open>int\<close>.
  An operation that the C++ code cannot complete normally
  (a division by zero, an access outside a vector, a failed \<open>assert\<close>, a \<open>resize\<close> with a
  negative count, a loop that never ends) yields \<open>None\<close>.
\<close>

type_synonym int2 = "int \<times> int"

definition INT_MAX :: int where
  "INT_MAX = 2147483647"

text \<open>The C++ operator \<open>/\<close> on \<open>int\<close> truncates towards zero.\<close>

definition cdiv :: "int \<Rightarrow> int \<Rightarrow> int" where
  "cdiv a b = sgn a * sgn b * (\<bar>a\<bar> div \<bar>b\<bar>)"

text \<open>
  The result of an \<open>int\<close> operation whose exact value is \<open>v\<close>: the two's complement value of
  its low 32 bits, which is what the compiled code computes (C++ leaves signed overflow
  undefined).  \<open>fits_int v\<close>: no overflow, the result is \<open>v\<close> itself.
\<close>

definition wrap_int :: "int \<Rightarrow> int" where
  "wrap_int v = signed_take_bit 31 v"

definition fits_int :: "int \<Rightarrow> bool" where
  "fits_int v = (- (2 ^ 31) \<le> v \<and> v < 2 ^ 31)"

definition divide_int :: "int \<Rightarrow> int \<Rightarrow> int option" where
  "divide_int a b = (if b = 0 then None else Some (cdiv a b))"

text \<open>\<open>for(int i = 0; i < n; i++)\<close> runs over \<open>range_int n\<close>.\<close>

definition range_int :: "int \<Rightarrow> int list" where
  "range_int n = map int [0..<nat n]"

fun foldM :: "('a \<Rightarrow> 's \<Rightarrow> 's option) \<Rightarrow> 'a list \<Rightarrow> 's \<Rightarrow> 's option" where
  "foldM f [] s = Some s"
| "foldM f (a # as) s = (case f a s of None \<Rightarrow> None | Some s' \<Rightarrow> foldM f as s')"

text \<open>\<open>vector::resize(n)\<close> on a cleared vector, slot \<open>i\<close> receiving \<open>init i\<close>; a negative
  \<open>int\<close> count converts to a \<open>size_t\<close> beyond \<open>max_size()\<close> and the call throws.\<close>

definition vector_resize :: "int \<Rightarrow> (nat \<Rightarrow> 'a) \<Rightarrow> 'a list option" where
  "vector_resize n init = (if n < 0 then None else Some (map init [0..<nat n]))"

text \<open>The conversion of an \<open>int\<close> to the 64-bit \<open>size_t\<close> in a mixed comparison.\<close>

definition size_t_of_int :: "int \<Rightarrow> nat" where
  "size_t_of_int i = nat (i mod 2 ^ 64)"

text \<open>\<open>list::sort(cmp)\<close> is a stable sort; for a strict weak order \<open>cmp\<close> its result is
  the one a stable insertion sort gives.\<close>

fun list_insert :: "('a \<Rightarrow> 'a \<Rightarrow> bool) \<Rightarrow> 'a \<Rightarrow> 'a list \<Rightarrow> 'a list" where
  "list_insert cmp a [] = [a]"
| "list_insert cmp a (b # bs) = (if cmp b a then b # list_insert cmp a bs else a # b # bs)"

definition list_sort :: "('a \<Rightarrow> 'a \<Rightarrow> bool) \<Rightarrow> 'a list \<Rightarrow> 'a list" where
  "list_sort cmp xs = foldr (list_insert cmp) xs []"

text \<open>A list is in the order of \<open>cmp\<close> when no later element must come before an earlier one.\<close>

fun sorted_by :: "('a \<Rightarrow> 'a \<Rightarrow> bool) \<Rightarrow> 'a list \<Rightarrow> bool" where
  "sorted_by cmp [] = True"
| "sorted_by cmp (a # as) = (list_all (\<lambda>b. \<not> cmp b a) as \<and> sorted_by cmp as)"

section \<open>Data model (tile.h)\<close>

datatype TileState = RENDER | RENDERED | DENOISE | DENOISED | DONE

text \<open>The enumerators' values, which the code compares with \<open><\<close>.\<close>

fun TileState_value :: "TileState \<Rightarrow> int" where
  "TileState_value RENDER = 0"
| "TileState_value RENDERED = 1"
| "TileState_value DENOISE = 2"
| "TileState_value DENOISED = 3"
| "TileState_value DONE = 4"

datatype TileOrder =
  TILE_CENTER | TILE_RIGHT_TO_LEFT | TILE_LEFT_TO_RIGHT | TILE_TOP_TO_BOTTOM |
  TILE_BOTTOM_TO_TOP | TILE_HILBERT_SPIRAL

text \<open>A \<open>RenderBuffers*\<close>: \<open>None\<close> is \<open>NULL\<close>, \<open>Some a\<close> the buffers at address \<open>a\<close>.\<close>

type_synonym RenderBuffers_ptr = "nat option"

record Tile =
  t_index :: int
  t_x :: int
  t_y :: int
  t_w :: int
  t_h :: int
  t_device :: int
  t_state :: TileState
  t_buffers :: RenderBuffers_ptr

text \<open>The fields of \<open>BufferParams\<close> (buffers.h) that the tile manager reads or writes.\<close>

record BufferParams =
  width :: int
  height :: int
  full_x :: int
  full_y :: int
  full_width :: int
  full_height :: int

record State =
  tiles :: "Tile list"
  tile_stride :: int
  buffer :: BufferParams
  global_buffers :: RenderBuffers_ptr
  sample :: int
  state_num_samples :: int
  resolution_divider :: int
  num_tiles :: int
  num_rendered_tiles :: int
  total_pixel_samples :: int
  render_tiles :: "int list list"
  denoise_tiles :: "int list list"

record TileManager =
  params :: BufferParams
  state :: State
  num_samples :: int
  range_start_sample :: int
  range_num_samples :: int
  schedule_denoising :: bool
  progressive :: bool
  tile_size :: int2
  tile_order :: TileOrder
  start_resolution :: int
  num_devices :: int
  only_denoise :: bool
  preserve_tile_device :: bool
  background :: bool

section \<open>Tile order (tile.cpp, anonymous namespace)\<close>

text \<open>
  A \<open>float\<close> that holds an integer is modelled by that integer.  \<open>float_round v\<close> is the
  \<open>float\<close> nearest to the integer \<open>v\<close>: single precision keeps 24 bits of significand, a
  tie goes to the even significand.  The conversion of an \<open>int\<close> to \<open>float\<close>, and the
  product and the sum of two such floats, are the exact integer results rounded (IEEE
  arithmetic, each operation rounded on its own).  \<open>bit_length a\<close> is the number of binary
  digits of \<open>a\<close>.
\<close>

function bit_length :: "int \<Rightarrow> nat" where
  "bit_length n = (if n \<le> 0 then 0 else Suc (bit_length (n div 2)))"
  by pat_completeness auto
termination
  by (relation "measure nat") auto

declare bit_length.simps [simp del]

definition float_round :: "int \<Rightarrow> int" where
  "float_round v =
     (let a = \<bar>v\<bar>;
          e = bit_length a - 24;
          q = a div 2 ^ e;
          r = a mod 2 ^ e;
          q' = (if 2 * r > 2 ^ e \<or> (2 * r = 2 ^ e \<and> odd q) then q + 1 else q)
      in sgn v * (q' * 2 ^ e))"

text \<open>\<open>make_float2\<close> on two \<open>int\<close> arguments, and \<open>dot\<close> on \<open>float2\<close> (the inner product, each
  operation rounded).\<close>

definition make_float2 :: "int \<Rightarrow> int \<Rightarrow> int2" where
  "make_float2 x y = (float_round x, float_round y)"

definition dot :: "int2 \<Rightarrow> int2 \<Rightarrow> int" where
  "dot a b = float_round (float_round (fst a * fst b) + float_round (snd a * snd b))"

text \<open>\<open>TileComparator::operator()\<close>.  For \<open>TILE_CENTER\<close> the code converts the two integer
  offsets to \<open>float\<close> and compares their squared lengths.\<close>

definition TileComparator :: "TileOrder \<Rightarrow> int2 \<Rightarrow> Tile list \<Rightarrow> int \<Rightarrow> int \<Rightarrow> bool" where
  "TileComparator order center ts a b =
     (let ta = ts ! nat a; tb = ts ! nat b in
      case order of
        TILE_CENTER \<Rightarrow>
          (let dist_a = make_float2 (fst center - (t_x ta + cdiv (t_w ta) 2))
                                    (snd center - (t_y ta + cdiv (t_h ta) 2));
               dist_b = make_float2 (fst center - (t_x tb + cdiv (t_w tb) 2))
                                    (snd center - (t_y tb + cdiv (t_h tb) 2))
           in dot dist_a dist_a < dot dist_b dist_b)
      | TILE_LEFT_TO_RIGHT \<Rightarrow>
          (if t_x ta = t_x tb then t_y ta < t_y tb else t_x ta < t_x tb)
      | TILE_RIGHT_TO_LEFT \<Rightarrow>
          (if t_x ta = t_x tb then t_y ta < t_y tb else t_x ta > t_x tb)
      | TILE_TOP_TO_BOTTOM \<Rightarrow>
          (if t_y ta = t_y tb then t_x ta < t_x tb else t_y ta > t_y tb)
      | _ \<Rightarrow>
          (if t_y ta = t_y tb then t_x ta < t_x tb else t_y ta < t_y tb))"

text \<open>
  \<open>hilbert_index_to_pos\<close>: the loop \<open>for(int s = 1; s < n; s *= 2)\<close>.  \<open>s\<close> starts at 1, so
  it is positive throughout; the test \<open>0 < s\<close> records that.
\<close>

function hilbert_loop :: "int \<Rightarrow> int \<Rightarrow> int \<Rightarrow> int2 \<Rightarrow> int2" where
  "hilbert_loop n s d xy =
     (if 0 < s \<and> s < n then
        (let rx = (drop_bit 1 d) AND 1;
             ry = (d XOR rx) AND 1;
             xy1 = (if ry = 0
                    then (let xy' = (if rx \<noteq> 0 then (s - 1 - fst xy, s - 1 - snd xy) else xy)
                          in (snd xy', fst xy'))
                    else xy);
             xy2 = (fst xy1 + rx * s, snd xy1 + ry * s)
         in hilbert_loop n (s * 2) (drop_bit 2 d) xy2)
      else xy)"
  by pat_completeness auto
termination
  by (relation "measure (\<lambda>(n, s, d, xy). nat (n - s))") auto

declare hilbert_loop.simps [simp del]

definition hilbert_index_to_pos :: "int \<Rightarrow> int \<Rightarrow> int2" where
  "hilbert_index_to_pos n d = hilbert_loop n 1 d (0, 0)"

datatype SpiralDirection = DIRECTION_UP | DIRECTION_LEFT | DIRECTION_DOWN | DIRECTION_RIGHT

section \<open>Preview resolution (tile.cpp)\<close>

text \<open>\<open>get_divider\<close>: the \<open>while\<close> loop need not end (\<open>start_resolution = 0\<close>, or a square
  of \<open>start_resolution\<close> that overflows to a value below 1).  The two products and the
  shift are \<open>int\<close> operations.\<close>

partial_function (option) get_divider_loop :: "int \<Rightarrow> int \<Rightarrow> int \<Rightarrow> int \<Rightarrow> int option" where
  "get_divider_loop w h start_res divider =
     (if wrap_int (w * h) > wrap_int (start_res * start_res)
      then get_divider_loop (max 1 (cdiv w 2)) (max 1 (cdiv h 2)) start_res
             (wrap_int (push_bit 1 divider))
      else Some divider)"

declare get_divider_loop.simps [code]

definition get_divider :: "int \<Rightarrow> int \<Rightarrow> int \<Rightarrow> int option" where
  "get_divider w h start_res =
     (if start_res \<noteq> INT_MAX then get_divider_loop w h start_res 1 else Some 1)"

definition get_num_effective_samples :: "TileManager \<Rightarrow> int" where
  "get_num_effective_samples m =
     (if only_denoise m then 1
      else if range_num_samples m = -1 then num_samples m else range_num_samples m)"

text \<open>The \<open>while(divider > 1)\<close> loop of \<open>set_samples\<close>.  \<open>pixel_samples\<close> is a \<open>uint64_t\<close>; the
  product \<open>image_w * image_h\<close> is an \<open>int\<close>, converted to \<open>uint64_t\<close> for the addition.\<close>

function set_samples_loop :: "int \<Rightarrow> int \<Rightarrow> int \<Rightarrow> int \<Rightarrow> int" where
  "set_samples_loop w h divider pixel_samples =
     (if divider > 1
      then (let image_w = max 1 (cdiv w divider);
                image_h = max 1 (cdiv h divider)
            in set_samples_loop w h (drop_bit 1 divider)
                 ((pixel_samples + wrap_int (image_w * image_h)) mod 2 ^ 64))
      else pixel_samples)"
  by pat_completeness auto
termination
  by (relation "measure (\<lambda>(w, h, divider, p). nat divider)") (auto simp: drop_bit_eq_div)

declare set_samples_loop.simps [simp del]

text \<open>\<open>set_samples\<close>: the products of \<open>params.width\<close>, \<open>params.height\<close> and the number of
  samples are products of \<open>int\<close>; their results are converted to \<open>uint64_t\<close> (reduced
  modulo \<open>2^64\<close>) when they are stored in or added to \<open>state.total_pixel_samples\<close>.\<close>

definition set_samples :: "int \<Rightarrow> TileManager \<Rightarrow> TileManager option" where
  "set_samples num_samples' m0 =
     (let m = m0\<lparr>num_samples := num_samples'\<rparr>;
          w = width (params m); h = height (params m)
      in if num_samples m = INT_MAX
         then Some (m\<lparr>state := (state m)\<lparr>total_pixel_samples := 0\<rparr>\<rparr>)
         else if only_denoise m
         then Some (m\<lparr>state := (state m)\<lparr>total_pixel_samples := wrap_int (w * h) mod 2 ^ 64\<rparr>\<rparr>)
         else do {
           d \<leftarrow> get_divider w h (start_resolution m);
           let pixel_samples = set_samples_loop w h (cdiv d 2) 0;
           let total = (pixel_samples
                        + wrap_int (wrap_int (get_num_effective_samples m * w) * h)) mod 2 ^ 64;
           let total' = (if schedule_denoising m then (total + wrap_int (w * h)) mod 2 ^ 64
                         else total);
           Some (m\<lparr>state := (state m)\<lparr>total_pixel_samples := total'\<rparr>\<rparr>)
         })"

text \<open>
  \<open>reset\<close>.  buffers.h is not among the sources: the default-constructed \<open>BufferParams()\<close>
  that \<open>reset\<close> stores in \<open>state.buffer\<close> is the parameter \<open>buffer_init\<close>.
\<close>

definition reset :: "BufferParams \<Rightarrow> BufferParams \<Rightarrow> int \<Rightarrow> TileManager \<Rightarrow> TileManager option" where
  "reset buffer_init params' num_samples' m0 = do {
     m \<leftarrow> set_samples num_samples' (m0\<lparr>params := params'\<rparr>);
     d \<leftarrow> get_divider (width (params m)) (height (params m)) (start_resolution m);
     Some (m\<lparr>state := (state m)\<lparr>
       buffer := buffer_init,
       global_buffers := None,
       sample := range_start_sample m - 1,
       num_tiles := 0,
       num_rendered_tiles := 0,
       state_num_samples := 0,
       resolution_divider := d,
       render_tiles := [],
       denoise_tiles := [],
       tiles := []\<rparr>\<rparr>)
   }"


text \<open>
  The constructor: it assigns the configuration (\<open>TileManager_members\<close>), then calls
  \<open>reset\<close> on a default \<open>BufferParams\<close>.  \<open>reset\<close> assigns every member of \<open>state\<close> but
  \<open>tile_stride\<close>, which is left as it was found: the parameter \<open>stride_init\<close>.
\<close>

definition TileManager_members ::
  "BufferParams \<Rightarrow> int \<Rightarrow> bool \<Rightarrow> int \<Rightarrow> int2 \<Rightarrow> int \<Rightarrow> bool \<Rightarrow> bool \<Rightarrow> TileOrder \<Rightarrow> int \<Rightarrow> bool \<Rightarrow>
   TileManager" where
  "TileManager_members buffer_init stride_init progressive' num_samples' tile_size'
       start_resolution' preserve_tile_device' background' tile_order' num_devices' only_denoise' =
     \<lparr>params = buffer_init,
      state = \<lparr>tiles = [], tile_stride = stride_init, buffer = buffer_init,
               global_buffers = None, sample = 0, state_num_samples = 0,
               resolution_divider = 0, num_tiles = 0, num_rendered_tiles = 0,
               total_pixel_samples = 0, render_tiles = [], denoise_tiles = []\<rparr>,
      num_samples = num_samples',
      range_start_sample = 0,
      range_num_samples = -1,
      schedule_denoising = False,
      progressive = progressive',
      tile_size = tile_size',
      tile_order = tile_order',
      start_resolution = start_resolution',
      num_devices = num_devices',
      only_denoise = only_denoise',
      preserve_tile_device = preserve_tile_device',
      background = background'\<rparr>"

definition TileManager_new ::
  "BufferParams \<Rightarrow> int \<Rightarrow> bool \<Rightarrow> int \<Rightarrow> int2 \<Rightarrow> int \<Rightarrow> bool \<Rightarrow> bool \<Rightarrow> TileOrder \<Rightarrow> int \<Rightarrow> bool \<Rightarrow>
   TileManager option" where
  "TileManager_new buffer_init stride_init progressive' num_samples' tile_size' start_resolution'
       preserve_tile_device' background' tile_order' num_devices' only_denoise' =
     reset buffer_init buffer_init 0
       (TileManager_members buffer_init stride_init progressive' num_samples' tile_size'
          start_resolution' preserve_tile_device' background' tile_order' num_devices'
          only_denoise')"

section \<open>Tile generation (tile.cpp)\<close>

text \<open>The constructor \<open>Tile(index, x, y, w, h, device, state, buffers)\<close>.\<close>

definition Tile_new ::
  "int \<Rightarrow> int \<Rightarrow> int \<Rightarrow> int \<Rightarrow> int \<Rightarrow> int \<Rightarrow> TileState \<Rightarrow> RenderBuffers_ptr \<Rightarrow> Tile" where
  "Tile_new idx x y w h dev st bufs =
     \<lparr>t_index = idx, t_x = x, t_y = y, t_w = w, t_h = h, t_device = dev, t_state = st,
      t_buffers = bufs\<rparr>"

text \<open>Reading and writing \<open>state.tiles[i]\<close>.\<close>

definition tile_at :: "TileManager \<Rightarrow> int \<Rightarrow> Tile option" where
  "tile_at m i =
     (if 0 \<le> i \<and> i < int (length (tiles (state m))) then Some (tiles (state m) ! nat i)
      else None)"

definition tile_update :: "int \<Rightarrow> (Tile \<Rightarrow> Tile) \<Rightarrow> TileManager \<Rightarrow> TileManager option" where
  "tile_update i f m =
     (if 0 \<le> i \<and> i < int (length (tiles (state m)))
      then Some (m\<lparr>state := (state m)\<lparr>tiles := (tiles (state m))[nat i := f (tiles (state m) ! nat i)]\<rparr>\<rparr>)
      else None)"

text \<open>
  The iterator \<open>tile_list\<close> of \<open>gen_tiles\<close> walks \<open>state.denoise_tiles\<close> when \<open>only_denoise\<close>
  is set and \<open>state.render_tiles\<close> otherwise; it is modelled by its position in that vector.
\<close>

definition tile_lists :: "TileManager \<Rightarrow> int list list" where
  "tile_lists m = (if only_denoise m then denoise_tiles (state m) else render_tiles (state m))"

definition tile_list_apply :: "nat \<Rightarrow> (int list \<Rightarrow> int list) \<Rightarrow> TileManager \<Rightarrow> TileManager option" where
  "tile_list_apply tile_list f m =
     (if tile_list < length (tile_lists m)
      then Some (if only_denoise m
                 then m\<lparr>state := (state m)\<lparr>denoise_tiles :=
                        (denoise_tiles (state m))[tile_list := f (denoise_tiles (state m) ! tile_list)]\<rparr>\<rparr>
                 else m\<lparr>state := (state m)\<lparr>render_tiles :=
                        (render_tiles (state m))[tile_list := f (render_tiles (state m) ! tile_list)]\<rparr>\<rparr>)
      else None)"

text \<open>The loop state of \<open>gen_tiles\<close>: the manager, \<open>tile_list\<close>, \<open>cur_device\<close>, \<open>cur_tiles\<close>.\<close>

type_synonym gen_state = "TileManager \<times> nat \<times> int \<times> int"

text \<open>The body of the loop over \<open>tile_x\<close> (lines 321 to 342).\<close>

definition gen_tiles_tile ::
  "bool \<Rightarrow> int \<Rightarrow> int \<Rightarrow> int \<Rightarrow> int \<Rightarrow> int \<Rightarrow> int \<Rightarrow> int \<Rightarrow> int2 \<Rightarrow> int \<Rightarrow> int \<Rightarrow>
   gen_state \<Rightarrow> gen_state option" where
  "gen_tiles_tile sliced slice slice_y slice_h tile_slice_h tiles_per_device image_w tile_w center
       tile_y tile_x st =
     (case st of (m, tile_list, cur_device, cur_tiles) \<Rightarrow>
      let x = tile_x * fst (tile_size m);
          y = tile_y * snd (tile_size m);
          w = (if tile_x = tile_w - 1 then image_w - x else fst (tile_size m));
          h = (if tile_y = tile_slice_h - 1 then slice_h - y else snd (tile_size m));
          idx = tile_y * tile_w + tile_x
      in do {
        m1 \<leftarrow> tile_update idx
                (\<lambda>_. Tile_new idx x (y + slice_y) w h (if sliced then slice else cur_device)
                        (if only_denoise m then DENOISE else RENDER) (global_buffers (state m))) m;
        m2 \<leftarrow> tile_list_apply tile_list (\<lambda>q. q @ [idx]) m1;
        if \<not> sliced then
          (if cur_tiles + 1 = tiles_per_device then do {
             m3 \<leftarrow> (if tile_order m2 \<noteq> TILE_BOTTOM_TO_TOP
                    then tile_list_apply tile_list
                           (list_sort (TileComparator (tile_order m2) center (tiles (state m2)))) m2
                    else Some m2);
             Some (m3, tile_list + 1, cur_device + 1, 0)
           }
           else Some (m2, tile_list, cur_device, cur_tiles + 1))
        else Some (m2, tile_list, cur_device, cur_tiles)
      })"

text \<open>The body of the loop over \<open>slice\<close> (lines 311 to 347).\<close>

definition gen_tiles_slice ::
  "bool \<Rightarrow> int \<Rightarrow> int \<Rightarrow> int \<Rightarrow> int \<Rightarrow> int \<Rightarrow> int2 \<Rightarrow> int \<Rightarrow>
   TileManager \<times> nat \<Rightarrow> (TileManager \<times> nat) option" where
  "gen_tiles_slice sliced slice_num num image_w image_h tile_w center slice st =
     (case st of (m, tile_list) \<Rightarrow> do {
        q \<leftarrow> divide_int image_h slice_num;
        let slice_y = q * slice;
        let slice_h = (if slice = slice_num - 1 then image_h - slice * q else q);
        tile_slice_h \<leftarrow> (if snd (tile_size m) \<ge> slice_h then Some 1
                         else divide_int (slice_h + snd (tile_size m) - 1) (snd (tile_size m)));
        tiles_per_device \<leftarrow> divide_int (tile_w * tile_slice_h + num - 1) num;
        st' \<leftarrow> foldM (\<lambda>tile_y.
                  foldM (gen_tiles_tile sliced slice slice_y slice_h tile_slice_h tiles_per_device
                           image_w tile_w center tile_y)
                    (range_int tile_w))
                (range_int tile_slice_h) (m, tile_list, 0, 0);
        (case st' of (m', tile_list', cur_device, cur_tiles) \<Rightarrow>
           Some (m', if sliced then tile_list' + 1 else tile_list'))
      })"

text \<open>The rotation of a block according to the spiral direction (lines 240 to 253): the
  tile of the block that \<open>hilbert_index\<close> stands for.\<close>

definition hilbert_tile :: "int \<Rightarrow> SpiralDirection \<Rightarrow> SpiralDirection \<Rightarrow> int \<Rightarrow> int2" where
  "hilbert_tile hilbert_size prev_dir dir hilbert_index =
     (let hilbert_pos = hilbert_index_to_pos hilbert_size hilbert_index
      in if prev_dir = DIRECTION_UP \<and> dir = DIRECTION_UP
         then (snd hilbert_pos, fst hilbert_pos)
         else if dir = DIRECTION_LEFT \<or> prev_dir = DIRECTION_LEFT
         then hilbert_pos
         else if dir = DIRECTION_DOWN
         then (hilbert_size - 1 - snd hilbert_pos, hilbert_size - 1 - fst hilbert_pos)
         else (hilbert_size - 1 - fst hilbert_pos, hilbert_size - 1 - snd hilbert_pos))"

text \<open>The body of the loop over \<open>hilbert_index\<close> (lines 239 to 270).\<close>

definition gen_tiles_hilbert_tile ::
  "int \<Rightarrow> int2 \<Rightarrow> int2 \<Rightarrow> int2 \<Rightarrow> SpiralDirection \<Rightarrow> SpiralDirection \<Rightarrow> int \<Rightarrow> int \<Rightarrow> int \<Rightarrow> int \<Rightarrow>
   int \<Rightarrow> gen_state \<Rightarrow> gen_state option" where
  "gen_tiles_hilbert_tile hilbert_size block block_size offset prev_dir dir image_w image_h tile_w
       tiles_per_device hilbert_index st =
     (case st of (m, tile_list, cur_device, cur_tiles) \<Rightarrow>
      let tile = hilbert_tile hilbert_size prev_dir dir hilbert_index;
          pos = (fst block * fst block_size + fst tile * fst (tile_size m) + fst offset,
                 snd block * snd block_size + snd tile * snd (tile_size m) + snd offset)
      in if fst pos \<ge> 0 \<and> snd pos \<ge> 0 \<and> fst pos < image_w \<and> snd pos < image_h then do {
           let w = min (fst (tile_size m)) (image_w - fst pos);
           let h = min (snd (tile_size m)) (image_h - snd pos);
           ipos_x \<leftarrow> divide_int (fst pos) (fst (tile_size m));
           ipos_y \<leftarrow> divide_int (snd pos) (snd (tile_size m));
           let idx = ipos_y * tile_w + ipos_x;
           m1 \<leftarrow> tile_update idx
                   (\<lambda>_. Tile_new idx (fst pos) (snd pos) w h cur_device
                           (if only_denoise m then DENOISE else RENDER) (global_buffers (state m))) m;
           m2 \<leftarrow> tile_list_apply tile_list (\<lambda>q. idx # q) m1;
           if cur_tiles + 1 = tiles_per_device
           then Some (m2, tile_list + 1, cur_device + 1, 0)
           else Some (m2, tile_list, cur_device, cur_tiles + 1)
         }
         else Some st)"

text \<open>The \<open>switch(dir)\<close> that advances the spiral to the next block (lines 279 to 305):
  the new \<open>i\<close>, \<open>block\<close> and \<open>dir\<close>.\<close>

definition spiral_advance ::
  "int \<Rightarrow> int \<Rightarrow> int2 \<Rightarrow> SpiralDirection \<Rightarrow> int \<times> int2 \<times> SpiralDirection" where
  "spiral_advance n i block dir =
     (case dir of
        DIRECTION_UP \<Rightarrow>
          (i, (fst block, snd block + 1),
           if snd block + 1 = n - i - 1 then DIRECTION_LEFT else dir)
      | DIRECTION_LEFT \<Rightarrow>
          (i, (fst block + 1, snd block),
           if fst block + 1 = n - i - 1 then DIRECTION_DOWN else dir)
      | DIRECTION_DOWN \<Rightarrow>
          (i, (fst block, snd block - 1),
           if snd block - 1 = i then DIRECTION_RIGHT else dir)
      | DIRECTION_RIGHT \<Rightarrow>
          (if fst block - 1 = i + 1
           then (i + 1, (fst block - 1, snd block), DIRECTION_UP)
           else (i, (fst block - 1, snd block), dir)))"

text \<open>The spiral \<open>for(int i = 0;;)\<close> over the blocks (lines 236 to 306).\<close>

partial_function (option) gen_tiles_spiral ::
  "int \<Rightarrow> int2 \<Rightarrow> int2 \<Rightarrow> int \<Rightarrow> int \<Rightarrow> int \<Rightarrow> int \<Rightarrow> int \<Rightarrow>
   int \<Rightarrow> int2 \<Rightarrow> SpiralDirection \<Rightarrow> SpiralDirection \<Rightarrow> gen_state \<Rightarrow> TileManager option" where
  "gen_tiles_spiral hilbert_size block_size offset image_w image_h tile_w tiles_per_device n
       i block prev_dir dir st = do {
     st' \<leftarrow> foldM (gen_tiles_hilbert_tile hilbert_size block block_size offset prev_dir dir
                     image_w image_h tile_w tiles_per_device)
              (range_int (hilbert_size * hilbert_size)) st;
     if fst block = cdiv (n - 1) 2 \<and> snd block = cdiv (n - 1) 2 then Some (fst st')
     else (case spiral_advance n i block dir of (i', block', dir') \<Rightarrow>
             gen_tiles_spiral hilbert_size block_size offset image_w image_h tile_w
               tiles_per_device n i' block' dir dir' st')
   }"

declare gen_tiles_spiral.simps [code]

text \<open>
  \<open>gen_tiles\<close>.  \<open>Tile()\<close> leaves every field of a tile unset, so what \<open>resize\<close> puts into
  slot \<open>i\<close> of \<open>state.tiles\<close> is not determined by the code: it is the parameter \<open>uninit i\<close>.
\<close>

definition gen_tiles :: "(nat \<Rightarrow> Tile) \<Rightarrow> bool \<Rightarrow> TileManager \<Rightarrow> (int \<times> TileManager) option" where
  "gen_tiles uninit sliced m0 = do {
     let resolution = resolution_divider (state m0);
     qw \<leftarrow> divide_int (width (params m0)) resolution;
     qh \<leftarrow> divide_int (height (params m0)) resolution;
     let image_w = max 1 qw;
     let image_h = max 1 qh;
     let center = (cdiv image_w 2, cdiv image_h 2);
     let num_logical_devices = (if preserve_tile_device m0 then num_devices m0 else 1);
     let num = min image_h num_logical_devices;
     let slice_num = (if sliced then num else 1);
     tile_w \<leftarrow> (if fst (tile_size m0) \<ge> image_w then Some 1
               else divide_int (image_w + fst (tile_size m0) - 1) (fst (tile_size m0)));
     tile_h \<leftarrow> (if snd (tile_size m0) \<ge> image_h then Some 1
               else divide_int (image_h + snd (tile_size m0) - 1) (snd (tile_size m0)));
     new_tiles \<leftarrow> vector_resize (tile_w * tile_h) uninit;
     new_render_tiles \<leftarrow> vector_resize num (\<lambda>_. []);
     new_denoise_tiles \<leftarrow> vector_resize num (\<lambda>_. []);
     let m = m0\<lparr>state := (state m0)\<lparr>tiles := new_tiles, render_tiles := new_render_tiles,
                 denoise_tiles := new_denoise_tiles, tile_stride := tile_w\<rparr>\<rparr>;
     if tile_order m = TILE_HILBERT_SPIRAL then
       (if sliced then None
        else do {
          let hilbert_size = (if max (fst (tile_size m)) (snd (tile_size m)) \<le> 12 then 8 else 4);
          tiles_per_device \<leftarrow> divide_int (tile_w * tile_h + num - 1) num;
          let block_size = (fst (tile_size m) * hilbert_size, snd (tile_size m) * hilbert_size);
          blocks_x \<leftarrow> (if fst block_size \<ge> image_w then Some 1
                       else divide_int (image_w + fst block_size - 1) (fst block_size));
          blocks_y \<leftarrow> (if snd block_size \<ge> image_h then Some 1
                       else divide_int (image_h + snd block_size - 1) (snd block_size));
          let n = (max blocks_x blocks_y) OR 1;
          let offset = (cdiv (image_w - n * fst block_size) 2, cdiv (image_h - n * snd block_size) 2);
          ox \<leftarrow> divide_int (fst offset) (fst (tile_size m));
          oy \<leftarrow> divide_int (snd offset) (snd (tile_size m));
          let offset = (ox * fst (tile_size m), oy * snd (tile_size m));
          m' \<leftarrow> gen_tiles_spiral hilbert_size block_size offset image_w image_h tile_w
                  tiles_per_device n 0 (0, 0) DIRECTION_UP DIRECTION_UP (m, 0, 0, 0);
          Some (tile_w * tile_h, m')
        })
     else do {
       st \<leftarrow> foldM (gen_tiles_slice sliced slice_num num image_w image_h tile_w center)
               (range_int slice_num) (m, 0);
       Some (tile_w * tile_h, fst st)
     }
   }"

definition set_tiles :: "(nat \<Rightarrow> Tile) \<Rightarrow> TileManager \<Rightarrow> TileManager option" where
  "set_tiles uninit m0 = do {
     let resolution = resolution_divider (state m0);
     qw \<leftarrow> divide_int (width (params m0)) resolution;
     qh \<leftarrow> divide_int (height (params m0)) resolution;
     let image_w = max 1 qw;
     let image_h = max 1 qh;
     r \<leftarrow> gen_tiles uninit (\<not> background m0) m0;
     let m = snd r;
     fx \<leftarrow> divide_int (full_x (params m)) resolution;
     fy \<leftarrow> divide_int (full_y (params m)) resolution;
     fw \<leftarrow> divide_int (full_width (params m)) resolution;
     fh \<leftarrow> divide_int (full_height (params m)) resolution;
     Some (m\<lparr>state := (state m)\<lparr>
       num_tiles := fst r,
       buffer := (buffer (state m))\<lparr>width := image_w, height := image_h,
                   full_x := fx, full_y := fy, full_width := max 1 fw, full_height := max 1 fh\<rparr>\<rparr>\<rparr>)
   }"


section \<open>Returning and handing out tiles (tile.cpp)\<close>

text \<open>The offset tables \<open>dx\<close> and \<open>dy\<close> of \<open>return_tile\<close>; entry 8 is the tile itself.\<close>

definition dx :: "int list" where
  "dx = [-1, 0, 1, -1, 1, -1, 0, 1, 0]"

definition dy :: "int list" where
  "dy = [-1, -1, -1, 0, 0, 1, 1, 1, 0]"

text \<open>
  The inner loop \<open>for(int nn = 0; nn < 8; nn++)\<close> of both branches of \<open>return_tile\<close>, over the
  remaining values of \<open>nn\<close>: the flag \<open>can_be_denoised\<close> (with \<open>lim = RENDERED\<close>) or
  \<open>can_be_freed\<close> (with \<open>lim = DENOISED\<close>).  The loop leaves with \<open>false\<close> at the first
  neighbour in the grid whose state is below \<open>lim\<close>.
\<close>

fun neighbors_at_least ::
  "TileState \<Rightarrow> int \<Rightarrow> int \<Rightarrow> int \<Rightarrow> nat list \<Rightarrow> TileManager \<Rightarrow> bool option" where
  "neighbors_at_least lim tile_w tile_h nindex [] m = Some True"
| "neighbors_at_least lim tile_w tile_h nindex (nn # nns) m = do {
     t \<leftarrow> tile_at m nindex;
     qx \<leftarrow> divide_int (t_x t) (fst (tile_size m));
     qy \<leftarrow> divide_int (t_y t) (snd (tile_size m));
     let nnx = qx + dx ! nn;
     let nny = qy + dy ! nn;
     if nnx < 0 \<or> nny < 0 \<or> nnx \<ge> tile_w \<or> nny \<ge> tile_h
     then neighbors_at_least lim tile_w tile_h nindex nns m
     else do {
       tn \<leftarrow> tile_at m (nny * tile_stride (state m) + nnx);
       if TileState_value (t_state tn) < TileState_value lim then Some False
       else neighbors_at_least lim tile_w tile_h nindex nns m
     }
   }"

text \<open>\<open>state.denoise_tiles[device].push_back(nindex)\<close>.\<close>

definition denoise_push_back :: "int \<Rightarrow> int \<Rightarrow> TileManager \<Rightarrow> TileManager option" where
  "denoise_push_back dev nindex m =
     (if 0 \<le> dev \<and> dev < int (length (denoise_tiles (state m)))
      then Some (m\<lparr>state := (state m)\<lparr>denoise_tiles :=
                   (denoise_tiles (state m))[nat dev := denoise_tiles (state m) ! nat dev @ [nindex]]\<rparr>\<rparr>)
      else None)"

text \<open>The body of the loop over \<open>n\<close> in the branch \<open>case Tile::RENDER\<close> (lines 395 to 415).\<close>

definition return_tile_render_neighbor ::
  "int \<Rightarrow> int \<Rightarrow> int \<Rightarrow> nat \<Rightarrow> TileManager \<Rightarrow> TileManager option" where
  "return_tile_render_neighbor tile_w tile_h index n m = do {
     t \<leftarrow> tile_at m index;
     qx \<leftarrow> divide_int (t_x t) (fst (tile_size m));
     qy \<leftarrow> divide_int (t_y t) (snd (tile_size m));
     let nx = qx + dx ! n;
     let ny = qy + dy ! n;
     if nx < 0 \<or> ny < 0 \<or> nx \<ge> tile_w \<or> ny \<ge> tile_h then Some m
     else do {
       let nindex = ny * tile_stride (state m) + nx;
       tn \<leftarrow> tile_at m nindex;
       if t_state tn \<noteq> RENDERED then Some m
       else do {
         can_be_denoised \<leftarrow> neighbors_at_least RENDERED tile_w tile_h nindex [0..<8] m;
         if can_be_denoised then do {
           m1 \<leftarrow> tile_update nindex (\<lambda>t. t\<lparr>t_state := DENOISE\<rparr>) m;
           tn1 \<leftarrow> tile_at m1 nindex;
           denoise_push_back (t_device tn1) nindex m1
         }
         else Some m
       }
     }
   }"

text \<open>The body of the loop over \<open>n\<close> in the branch \<open>case Tile::DENOISE\<close> (lines 429 to 457);
  the state carries \<open>delete_tile\<close>.\<close>

definition return_tile_denoise_neighbor ::
  "int \<Rightarrow> int \<Rightarrow> int \<Rightarrow> nat \<Rightarrow> TileManager \<times> bool \<Rightarrow> (TileManager \<times> bool) option" where
  "return_tile_denoise_neighbor tile_w tile_h index n st =
     (case st of (m, delete_tile) \<Rightarrow> do {
        t \<leftarrow> tile_at m index;
        qx \<leftarrow> divide_int (t_x t) (fst (tile_size m));
        qy \<leftarrow> divide_int (t_y t) (snd (tile_size m));
        let nx = qx + dx ! n;
        let ny = qy + dy ! n;
        if nx < 0 \<or> ny < 0 \<or> nx \<ge> tile_w \<or> ny \<ge> tile_h then Some st
        else do {
          let nindex = ny * tile_stride (state m) + nx;
          tn \<leftarrow> tile_at m nindex;
          if t_state tn \<noteq> DENOISED then Some st
          else do {
            can_be_freed \<leftarrow> neighbors_at_least DENOISED tile_w tile_h nindex [0..<8] m;
            if can_be_freed then do {
              m1 \<leftarrow> tile_update nindex (\<lambda>t. t\<lparr>t_state := DONE\<rparr>) m;
              if n = 8 then Some (m1, True)
              else do {
                m2 \<leftarrow> tile_update nindex (\<lambda>t. t\<lparr>t_buffers := None\<rparr>) m1;
                Some (m2, delete_tile)
              }
            }
            else Some st
          }
        }
      })"

text \<open>
  \<open>return_tile(index, delete_tile)\<close>: the returned flag, \<open>delete_tile\<close>, and the new manager.
  The two \<open>assert\<close>s (\<open>!only_denoise\<close> on a tile in \<open>RENDER\<close>, and \<open>false\<close> on a tile in any
  other state than \<open>RENDER\<close> and \<open>DENOISE\<close>) stop the program.
\<close>

definition return_tile :: "int \<Rightarrow> TileManager \<Rightarrow> ((bool \<times> bool) \<times> TileManager) option" where
  "return_tile index m = do {
     let resolution = resolution_divider (state m);
     qw \<leftarrow> divide_int (width (params m)) resolution;
     qh \<leftarrow> divide_int (height (params m)) resolution;
     let image_w = max 1 qw;
     let image_h = max 1 qh;
     tile_w \<leftarrow> (if fst (tile_size m) \<ge> image_w then Some 1
               else divide_int (image_w + fst (tile_size m) - 1) (fst (tile_size m)));
     tile_h \<leftarrow> (if snd (tile_size m) \<ge> image_h then Some 1
               else divide_int (image_h + snd (tile_size m) - 1) (snd (tile_size m)));
     t \<leftarrow> tile_at m index;
     (case t_state t of
        RENDER \<Rightarrow>
          (if only_denoise m then None
           else if \<not> schedule_denoising m then do {
             m1 \<leftarrow> tile_update index (\<lambda>t. t\<lparr>t_state := DONE\<rparr>) m;
             Some ((True, True), m1)
           }
           else do {
             m1 \<leftarrow> tile_update index (\<lambda>t. t\<lparr>t_state := RENDERED\<rparr>) m;
             m2 \<leftarrow> foldM (return_tile_render_neighbor tile_w tile_h index) [0..<9] m1;
             Some ((False, False), m2)
           })
      | DENOISE \<Rightarrow>
          (if only_denoise m then do {
             m1 \<leftarrow> tile_update index (\<lambda>t. t\<lparr>t_state := DONE\<rparr>) m;
             Some ((True, False), m1)
           }
           else do {
             m1 \<leftarrow> tile_update index (\<lambda>t. t\<lparr>t_state := DENOISED\<rparr>) m;
             st \<leftarrow> foldM (return_tile_denoise_neighbor tile_w tile_h index) [0..<9] (m1, False);
             Some ((True, snd st), fst st)
           })
      | _ \<Rightarrow> None)
   }"

text \<open>
  \<open>next_tile(tile, device)\<close>: \<open>Some idx\<close> when the call returns true with
  \<open>tile = &state.tiles[idx]\<close>, \<open>None\<close> when it returns false; and the new manager.
  The test \<open>logical_device >= state.render_tiles.size()\<close> compares as \<open>size_t\<close>.
\<close>

definition next_tile :: "int \<Rightarrow> TileManager \<Rightarrow> (int option \<times> TileManager) option" where
  "next_tile dev m =
     (let logical_device = (if preserve_tile_device m then dev else 0);
          l = size_t_of_int logical_device
      in if l \<ge> length (render_tiles (state m)) then Some (None, m)
         else if l \<ge> length (denoise_tiles (state m)) then None
         else if denoise_tiles (state m) ! l \<noteq> [] then
           (let idx = hd (denoise_tiles (state m) ! l);
                m1 = m\<lparr>state := (state m)\<lparr>denoise_tiles :=
                       (denoise_tiles (state m))[l := tl (denoise_tiles (state m) ! l)]\<rparr>\<rparr>;
                m2 = (if only_denoise m1
                      then m1\<lparr>state := (state m1)\<lparr>num_rendered_tiles :=
                             num_rendered_tiles (state m1) + 1\<rparr>\<rparr>
                      else m1)
            in Some (Some idx, m2))
         else if render_tiles (state m) ! l = [] then Some (None, m)
         else
           (let idx = hd (render_tiles (state m) ! l);
                m1 = m\<lparr>state := (state m)\<lparr>render_tiles :=
                       (render_tiles (state m))[l := tl (render_tiles (state m) ! l)]\<rparr>\<rparr>
            in Some (Some idx, m1\<lparr>state := (state m1)\<lparr>num_rendered_tiles :=
                                    num_rendered_tiles (state m1) + 1\<rparr>\<rparr>)))"

section \<open>Phases (tile.cpp)\<close>

definition TileManager_done :: "TileManager \<Rightarrow> bool" where
  "TileManager_done m =
     (let end_sample = (if range_num_samples m = -1 then num_samples m
                        else range_start_sample m + range_num_samples m)
      in resolution_divider (state m) = 1
         \<and> sample (state m) + state_num_samples (state m) \<ge> end_sample)"

text \<open>\<open>next()\<close>: the returned flag and the new manager.\<close>

definition TileManager_next :: "(nat \<Rightarrow> Tile) \<Rightarrow> TileManager \<Rightarrow> (bool \<times> TileManager) option" where
  "TileManager_next uninit m =
     (if TileManager_done m then Some (False, m)
      else if progressive m \<and> resolution_divider (state m) > 1 then do {
        m' \<leftarrow> set_tiles uninit (m\<lparr>state := (state m)\<lparr>
                 sample := 0,
                 resolution_divider := cdiv (resolution_divider (state m)) 2,
                 state_num_samples := 1\<rparr>\<rparr>);
        Some (True, m')
      }
      else do {
        m' \<leftarrow> set_tiles uninit (m\<lparr>state := (state m)\<lparr>
                 sample := sample (state m) + 1,
                 state_num_samples := (if progressive m then 1
                                       else if range_num_samples m = -1 then num_samples m
                                       else range_num_samples m),
                 resolution_divider := 1\<rparr>\<rparr>);
        Some (True, m')
      })"

definition free_device :: "TileManager \<Rightarrow> TileManager" where
  "free_device m =
     (if schedule_denoising m
      then m\<lparr>state := (state m)\<lparr>tiles := map (\<lambda>t. t\<lparr>t_buffers := None\<rparr>) (tiles (state m))\<rparr>\<rparr>
      else m)"

section \<open>Feature transform (filter_transform.h)\<close>

text \<open>
  \<open>kernel_filter_construct_transform\<close> works on \<open>float\<close>s.  Its rank selection reads them
  only through arithmetic and comparisons, so the model leaves the type \<open>'f\<close> of floats and
  its operations open: every fact proved holds whatever the operations compute (rounding,
  infinities and NaN included).  \<open>math_vector_mul\<close> is a helper outside the sources and is a
  parameter as well; arrays are functions from the index to the element.
\<close>

record 'f float_ops =
  f_zero :: 'f
  f_one :: 'f
  f_add :: "'f \<Rightarrow> 'f \<Rightarrow> 'f"
  f_sub :: "'f \<Rightarrow> 'f \<Rightarrow> 'f"
  f_mul :: "'f \<Rightarrow> 'f \<Rightarrow> 'f"
  f_neg :: "'f \<Rightarrow> 'f"
  f_sqrt :: "'f \<Rightarrow> 'f"
  f_less :: "'f \<Rightarrow> 'f \<Rightarrow> bool"
  f_greater_eq :: "'f \<Rightarrow> 'f \<Rightarrow> bool"
  math_vector_mul :: "(nat \<Rightarrow> 'f) \<Rightarrow> nat \<Rightarrow> (nat \<Rightarrow> 'f) \<Rightarrow> nat \<Rightarrow> (nat \<Rightarrow> 'f)"

text \<open>The loop of the branch \<open>pca_threshold > 0.0f\<close> (lines 91 to 98), from \<open>i\<close> on; the count
  \<open>DENOISE_FEATURES\<close> is the parameter \<open>F\<close>.\<close>

function transform_energy_loop ::
  "'f float_ops \<Rightarrow> nat \<Rightarrow> (nat \<Rightarrow> 'f) \<Rightarrow> (nat \<Rightarrow> 'f) \<Rightarrow> 'f \<Rightarrow> nat \<Rightarrow>
   (nat \<Rightarrow> 'f) \<Rightarrow> nat \<Rightarrow> 'f \<Rightarrow> (nat \<Rightarrow> 'f) \<times> nat" where
  "transform_energy_loop ops F feature_matrix feature_scale threshold_energy i
       transform rank reduced_energy =
     (if i < F then
        (let s = feature_matrix (i * F + i) in
         if i \<ge> 2 \<and> f_greater_eq ops reduced_energy threshold_energy then (transform, rank)
         else transform_energy_loop ops F feature_matrix feature_scale threshold_energy (i + 1)
                (math_vector_mul ops transform (rank * F) feature_scale F) (rank + 1)
                (f_add ops reduced_energy s))
      else (transform, rank))"
  by pat_completeness auto
termination
  by (relation "measure (\<lambda>(ops, F, fm, fs, te, i, t, r, re). F - i)") auto

declare transform_energy_loop.simps [simp del]

text \<open>The loop of the other branch (lines 101 to 107).\<close>

function transform_deviation_loop ::
  "'f float_ops \<Rightarrow> nat \<Rightarrow> (nat \<Rightarrow> 'f) \<Rightarrow> (nat \<Rightarrow> 'f) \<Rightarrow> 'f \<Rightarrow> nat \<Rightarrow>
   (nat \<Rightarrow> 'f) \<Rightarrow> nat \<Rightarrow> (nat \<Rightarrow> 'f) \<times> nat" where
  "transform_deviation_loop ops F feature_matrix feature_scale pca_threshold i transform rank =
     (if i < F then
        (let s = feature_matrix (i * F + i) in
         if i \<ge> 2 \<and> f_less ops (f_sqrt ops s) (f_neg ops pca_threshold) then (transform, rank)
         else transform_deviation_loop ops F feature_matrix feature_scale pca_threshold (i + 1)
                (math_vector_mul ops transform (rank * F) feature_scale F) (rank + 1))
      else (transform, rank))"
  by pat_completeness auto
termination
  by (relation "measure (\<lambda>(ops, F, fm, fs, p, i, t, r). F - i)") auto

declare transform_deviation_loop.simps [simp del]

text \<open>
  \<open>kernel_filter_construct_transform\<close> from \<open>*rank = 0\<close> on (lines 82 to 108): the new
  \<open>transform\<close> and \<open>*rank\<close>.  Lines 25 to 81 compute \<open>feature_matrix\<close>, \<open>transform\<close> and
  \<open>feature_scale\<close> from the buffer, the window and the radius through helpers outside the
  sources; the three arrays are parameters here, so a statement for all of them covers
  every buffer, window and radius.
\<close>

definition kernel_filter_construct_transform ::
  "'f float_ops \<Rightarrow> nat \<Rightarrow> (nat \<Rightarrow> 'f) \<Rightarrow> (nat \<Rightarrow> 'f) \<Rightarrow> (nat \<Rightarrow> 'f) \<Rightarrow> 'f \<Rightarrow> (nat \<Rightarrow> 'f) \<times> nat" where
  "kernel_filter_construct_transform ops F feature_matrix transform feature_scale pca_threshold =
     (if f_less ops (f_zero ops) pca_threshold then
        (let threshold_energy =
               foldl (\<lambda>e i. f_add ops e (feature_matrix (i * F + i))) (f_zero ops) [0..<F];
             threshold_energy = f_mul ops threshold_energy (f_sub ops (f_one ops) pca_threshold)
         in transform_energy_loop ops F feature_matrix feature_scale threshold_energy 0
              transform 0 (f_zero ops))
      else transform_deviation_loop ops F feature_matrix feature_scale pca_threshold 0 transform 0)"

section \<open>Notions used in the statements and proofs\<close>

text \<open>The all-zero buffer description and the tiles used as unset slots in the scenarios.\<close>

definition BufferParams_zero :: BufferParams where
  "BufferParams_zero =
     \<lparr>width = 0, height = 0, full_x = 0, full_y = 0, full_width = 0, full_height = 0\<rparr>"

definition image_params :: "int \<Rightarrow> int \<Rightarrow> BufferParams" where
  "image_params w h =
     \<lparr>width = w, height = h, full_x = 0, full_y = 0, full_width = w, full_height = h\<rparr>"

definition unset_tile :: "nat \<Rightarrow> Tile" where
  "unset_tile i = Tile_new 0 0 0 0 0 0 RENDER None"

text \<open>A size after \<open>k\<close> of the halvings \<open>w = max(1, w/2)\<close> of \<open>get_divider\<close>.\<close>

definition halved :: "nat \<Rightarrow> int \<Rightarrow> int" where
  "halved k v = (if k = 0 then v else max 1 (v div 2 ^ k))"

text \<open>One round of the loop of \<open>hilbert_index_to_pos\<close>, on the base-4 digit \<open>q\<close>.\<close>

definition hilbert_step :: "int \<Rightarrow> int \<Rightarrow> int2 \<Rightarrow> int2" where
  "hilbert_step s q xy =
     (let rx = (drop_bit 1 q) AND 1;
          ry = (q XOR rx) AND 1;
          xy1 = (if ry = 0
                 then (let xy' = (if rx \<noteq> 0 then (s - 1 - fst xy, s - 1 - snd xy) else xy)
                       in (snd xy', fst xy'))
                 else xy)
      in (fst xy1 + rx * s, snd xy1 + ry * s))"

definition square_grid :: "int \<Rightarrow> int2 set" where
  "square_grid s = {0..<s} \<times> {0..<s}"

text \<open>Floats replaced by integers, to run the rank selection on an example.\<close>

definition int_ops :: "int float_ops" where
  "int_ops = \<lparr>f_zero = 0, f_one = 1, f_add = (+), f_sub = (-), f_mul = (*), f_neg = uminus,
     f_sqrt = (\<lambda>v. v), f_less = (<), f_greater_eq = (\<ge>),
     math_vector_mul = (\<lambda>v off w n i. if off \<le> i \<and> i < off + n then v i * w (i - off) else v i)\<rparr>"

text \<open>\<open>same_config m m'\<close>: \<open>m'\<close> differs from \<open>m\<close> at most in the contents of the tiles and
  of the queues; their numbers are the same.\<close>

definition same_config :: "TileManager \<Rightarrow> TileManager \<Rightarrow> bool" where
  "same_config m m' =
     (\<exists>ts rt dt. m' = m\<lparr>state := (state m)\<lparr>tiles := ts, render_tiles := rt, denoise_tiles := dt\<rparr>\<rparr>
        \<and> length ts = length (tiles (state m))
        \<and> length rt = length (render_tiles (state m))
        \<and> length dt = length (denoise_tiles (state m)))"

text \<open>The tile indices waiting in the queues of all devices, with multiplicity.\<close>

definition queued :: "TileManager \<Rightarrow> int multiset" where
  "queued m = mset (concat (render_tiles (state m))) + mset (concat (denoise_tiles (state m)))"

text \<open>The state of the tile loops of \<open>gen_tiles\<close> after \<open>k\<close> tiles of a slice that began in
  manager \<open>m\<close> at queue \<open>li0\<close>, with \<open>per\<close> tiles per device.\<close>

definition gen_inv :: "bool \<Rightarrow> TileManager \<Rightarrow> nat \<Rightarrow> nat \<Rightarrow> nat \<Rightarrow> gen_state \<Rightarrow> bool" where
  "gen_inv sliced m li0 per k st =
     (case st of (m', li, cur_device, cur_tiles) \<Rightarrow>
        same_config m m' \<and> queued m' = queued m + mset (map int [0..<k]) \<and>
        (if sliced then li = li0 \<and> cur_device = 0 \<and> cur_tiles = 0
         else li = li0 + k div per \<and> cur_device = int (k div per)
              \<and> cur_tiles = int (k mod per)))"

text \<open>The number of tiles of size \<open>sz\<close> across \<open>img\<close> pixels, as \<open>gen_tiles\<close> and
  \<open>return_tile\<close> compute it.\<close>

definition tiles_across :: "int \<Rightarrow> int \<Rightarrow> int" where
  "tiles_across sz img = (if sz \<ge> img then 1 else cdiv (img + sz - 1) sz)"

text \<open>The configurations on which \<open>set_tiles\<close> runs without a division by zero, an empty
  vector of queues or a failed \<open>assert(!sliced)\<close>: the Hilbert spiral is laid out in
  background mode only.\<close>

definition well_configured :: "TileManager \<Rightarrow> bool" where
  "well_configured m =
     (1 \<le> resolution_divider (state m) \<and> 1 \<le> fst (tile_size m) \<and> 1 \<le> snd (tile_size m)
      \<and> (if preserve_tile_device m then 1 \<le> num_devices m else True)
      \<and> (if tile_order m = TILE_HILBERT_SPIRAL then background m else True))"

text \<open>
  The spiral over \<open>n\<close> x \<open>n\<close> blocks runs ring by ring from the outside to the centre:
  ring \<open>r\<close> is entered at block \<open>(r, r)\<close>, goes up its left column, along its top row, down
  its right column and back along its bottom row.  \<open>block_key n b\<close> is the number of blocks
  the walk has left behind when it stands on block \<open>b\<close>; \<open>ring_base n r\<close> is that number
  for the first block of ring \<open>r\<close>.
\<close>

definition ring_base :: "int \<Rightarrow> int \<Rightarrow> int" where
  "ring_base n r = 4 * r * (n - r)"

definition block_ring :: "int \<Rightarrow> int2 \<Rightarrow> int" where
  "block_ring n b = min (min (fst b) (snd b)) (min (n - 1 - fst b) (n - 1 - snd b))"

definition block_key :: "int \<Rightarrow> int2 \<Rightarrow> int" where
  "block_key n b =
     (let r = block_ring n b; e = n - 1 - 2 * r
      in if fst b = r then ring_base n r + (snd b - r)
         else if snd b = n - 1 - r then ring_base n r + e + (fst b - r)
         else if fst b = n - 1 - r then ring_base n r + 2 * e + (n - 1 - r - snd b)
         else ring_base n r + 3 * e + (n - 1 - r - fst b))"

text \<open>The values that \<open>i\<close>, \<open>block\<close> and \<open>dir\<close> take together at the head of the spiral loop,
  the centre block apart.\<close>

definition spiral_ok :: "int \<Rightarrow> int \<Rightarrow> int2 \<Rightarrow> SpiralDirection \<Rightarrow> bool" where
  "spiral_ok n i b dir =
     (0 \<le> i \<and>
      (case dir of
         DIRECTION_UP \<Rightarrow> fst b = i \<and> i - 1 \<le> snd b \<and> 0 \<le> snd b \<and> snd b \<le> n - i - 2
       | DIRECTION_LEFT \<Rightarrow> snd b = n - i - 1 \<and> i \<le> fst b \<and> fst b \<le> n - i - 2
       | DIRECTION_DOWN \<Rightarrow> fst b = n - i - 1 \<and> i + 1 \<le> snd b \<and> snd b \<le> n - i - 1
       | DIRECTION_RIGHT \<Rightarrow> snd b = i \<and> i + 2 \<le> fst b \<and> fst b \<le> n - i - 1))"

text \<open>How far the walk is into ring \<open>i\<close>.\<close>

definition spiral_offset :: "int \<Rightarrow> int \<Rightarrow> int2 \<Rightarrow> SpiralDirection \<Rightarrow> int" where
  "spiral_offset n i b dir =
     (case dir of
        DIRECTION_UP \<Rightarrow> snd b - i
      | DIRECTION_LEFT \<Rightarrow> (n - 1 - 2 * i) + (fst b - i)
      | DIRECTION_DOWN \<Rightarrow> 2 * (n - 1 - 2 * i) + (n - 1 - i - snd b)
      | DIRECTION_RIGHT \<Rightarrow> 3 * (n - 1 - 2 * i) + (n - 1 - i - fst b))"

text \<open>
  The tile \<open>t\<close> of block \<open>b\<close>, in units of tiles: \<open>pos\<close> of the Hilbert loop is this cell times
  the tile size, when the offset of the spiral is \<open>oq\<close> tiles.  \<open>cell_index\<close> is the \<open>idx\<close>
  of a cell of the image.
\<close>

definition spiral_cell :: "int \<Rightarrow> int2 \<Rightarrow> int2 \<Rightarrow> int2 \<Rightarrow> int2" where
  "spiral_cell H oq b t = (fst b * H + fst t + fst oq, snd b * H + snd t + snd oq)"

definition cell_index :: "int \<Rightarrow> int2 \<Rightarrow> int" where
  "cell_index tile_w c = snd c * tile_w + fst c"

text \<open>The state of the Hilbert loops of \<open>gen_tiles\<close> that began in manager \<open>m\<close>, once the
  cells in \<open>C\<close> have been given a tile, with \<open>per\<close> tiles per device.\<close>

definition hilbert_inv :: "TileManager \<Rightarrow> nat \<Rightarrow> int \<Rightarrow> int2 set \<Rightarrow> gen_state \<Rightarrow> bool" where
  "hilbert_inv m per tile_w C st =
     (case st of (m', li, cur_device, cur_tiles) \<Rightarrow>
        same_config m m' \<and> queued m' = queued m + image_mset (cell_index tile_w) (mset_set C)
        \<and> li = card C div per \<and> cur_device = int (card C div per)
        \<and> cur_tiles = int (card C mod per))"

text \<open>What the loops of \<open>gen_tiles\<close> keep true of the denoise queues: they are empty when
  the manager renders, and hold tiles in state \<open>DENOISE\<close> when it only denoises.\<close>

definition gen_ready :: "TileManager \<Rightarrow> bool" where
  "gen_ready m =
     (if only_denoise m
      then \<forall>j\<in>set (concat (denoise_tiles (state m))).
             0 \<le> j \<and> j < int (length (tiles (state m)))
             \<and> t_state (tiles (state m) ! nat j) = DENOISE
      else concat (denoise_tiles (state m)) = [])"

text \<open>\<open>gen_frame m m'\<close>: \<open>m'\<close> differs from \<open>m\<close> at most in what \<open>set_tiles\<close> writes.\<close>

definition gen_frame :: "TileManager \<Rightarrow> TileManager \<Rightarrow> bool" where
  "gen_frame m m' =
     (\<exists>ts rt dt st n b. m' = m\<lparr>state := (state m)\<lparr>tiles := ts, render_tiles := rt,
                                  denoise_tiles := dt, tile_stride := st, num_tiles := n,
                                  buffer := b\<rparr>\<rparr>)"

text \<open>
  The phases that at most \<open>n\<close> successive calls of \<open>next()\<close> start, each as the triple of
  \<open>state.resolution_divider\<close>, \<open>state.sample\<close> and \<open>state.num_samples\<close> it sets; the list
  ends early when \<open>next()\<close> returns false.
\<close>

fun phases :: "(nat \<Rightarrow> Tile) \<Rightarrow> nat \<Rightarrow> TileManager \<Rightarrow> (int \<times> int \<times> int) list option" where
  "phases uninit 0 m = Some []"
| "phases uninit (Suc n) m = do {
     r \<leftarrow> TileManager_next uninit m;
     if fst r then do {
       rest \<leftarrow> phases uninit n (snd r);
       Some ((resolution_divider (state (snd r)), sample (state (snd r)),
              state_num_samples (state (snd r))) # rest)
     }
     else Some []
   }"

text \<open>The tile that a call of \<open>next_tile\<close> handed out, if it handed one out.\<close>

definition handed_out :: "(int option \<times> TileManager) option \<Rightarrow> Tile option" where
  "handed_out r = (case r of Some (Some idx, m) \<Rightarrow> tile_at m idx | _ \<Rightarrow> None)"

text \<open>Successive calls of \<open>next_tile\<close>, one for each device of the list, with nothing in
  between: what each call returned, and the manager after the last.\<close>

fun next_tiles :: "int list \<Rightarrow> TileManager \<Rightarrow> (int option list \<times> TileManager) option" where
  "next_tiles [] m = Some ([], m)"
| "next_tiles (dev # devs) m = do {
     r \<leftarrow> next_tile dev m;
     rs \<leftarrow> next_tiles devs (snd r);
     Some (fst r # fst rs, snd rs)
   }"

text \<open>Successive calls of \<open>return_tile\<close>, one for each index of the list.\<close>

fun return_tiles :: "int list \<Rightarrow> TileManager \<Rightarrow> TileManager option" where
  "return_tiles [] m = Some m"
| "return_tiles (index # indices) m = do {
     r \<leftarrow> return_tile index m;
     return_tiles indices (snd r)
   }"

text \<open>\<open>same_setup m m'\<close>: the two managers have the same configuration and parameters.\<close>

definition same_setup :: "TileManager \<Rightarrow> TileManager \<Rightarrow> bool" where
  "same_setup m m' =
     (params m' = params m \<and> num_samples m' = num_samples m
      \<and> range_start_sample m' = range_start_sample m
      \<and> range_num_samples m' = range_num_samples m
      \<and> schedule_denoising m' = schedule_denoising m \<and> progressive m' = progressive m
      \<and> tile_size m' = tile_size m \<and> tile_order m' = tile_order m
      \<and> start_resolution m' = start_resolution m \<and> num_devices m' = num_devices m
      \<and> only_denoise m' = only_denoise m \<and> preserve_tile_device m' = preserve_tile_device m
      \<and> background m' = background m)"

text \<open>Scenario 3 of the specification: viewport mode, two devices, a 100 x 40 image and
  tiles of 32 x 32, after \<open>set_tiles\<close>.\<close>

definition viewport_scenario :: "TileManager option" where
  "viewport_scenario =
     TileManager_new BufferParams_zero 0 False 1 (32, 32) INT_MAX True False TILE_CENTER 2 False
       \<bind> reset BufferParams_zero (image_params 100 40) 1
       \<bind> set_tiles unset_tile"

text \<open>Background mode, two devices, five tiles in a row, order \<open>TILE_RIGHT_TO_LEFT\<close>,
  after \<open>set_tiles\<close>.\<close>

definition chunk_scenario :: "TileManager option" where
  "chunk_scenario =
     TileManager_new BufferParams_zero 0 False 1 (32, 32) INT_MAX True True TILE_RIGHT_TO_LEFT 2
         False
       \<bind> reset BufferParams_zero (image_params 160 32) 1
       \<bind> set_tiles unset_tile"

text \<open>Scenario 2 of the specification: a 192 x 192 image in tiles of 64 x 64 (a grid of
  3 x 3 tiles), one device, \<open>schedule_denoising\<close> set after construction, after \<open>set_tiles\<close>.\<close>

definition denoise_scenario :: "TileManager option" where
  "denoise_scenario =
     map_option (\<lambda>m. m\<lparr>schedule_denoising := True\<rparr>)
       (TileManager_new BufferParams_zero 0 False 1 (64, 64) INT_MAX False True
          TILE_LEFT_TO_RIGHT 1 False)
       \<bind> reset BufferParams_zero (image_params 192 192) 1
       \<bind> set_tiles unset_tile"

text \<open>The state of tile \<open>i\<close>.\<close>

definition tile_state_of :: "TileManager \<Rightarrow> nat \<Rightarrow> TileState" where
  "tile_state_of m i = t_state (tiles (state m) ! i)"

text \<open>The configuration and the tile geometry of the 3 x 3 scenario, whatever the states of
  the tiles and the contents of the queue.\<close>

definition grid3 :: "TileManager \<Rightarrow> bool" where
  "grid3 m =
     (tile_size m = (64, 64) \<and> width (params m) = 192 \<and> height (params m) = 192
      \<and> resolution_divider (state m) = 1 \<and> schedule_denoising m \<and> \<not> only_denoise m
      \<and> tile_stride (state m) = 3 \<and> length (tiles (state m)) = 9
      \<and> length (denoise_tiles (state m)) = 1
      \<and> list_all (\<lambda>i. t_x (tiles (state m) ! i) = 64 * int (i mod 3)
                      \<and> t_y (tiles (state m) ! i) = 64 * int (i div 3)
                      \<and> t_device (tiles (state m) ! i) = 0) [0..<9])"

text \<open>In the 3 x 3 grid, the index of the neighbour number \<open>n\<close> (by \<open>dx\<close>, \<open>dy\<close>) of tile \<open>i\<close>,
  if it is in the grid.\<close>

definition nbr :: "nat \<Rightarrow> nat \<Rightarrow> nat option" where
  "nbr i n =
     (let nx = int (i mod 3) + dx ! n; ny = int (i div 3) + dy ! n
      in if nx < 0 \<or> ny < 0 \<or> nx \<ge> 3 \<or> ny \<ge> 3 then None else Some (nat (ny * 3 + nx)))"

text \<open>What lines 413 and 414 write for tile \<open>j\<close> of a single device: state \<open>DENOISE\<close>, and
  \<open>j\<close> at the back of the denoise queue.\<close>

definition promote :: "nat \<Rightarrow> TileManager \<Rightarrow> TileManager" where
  "promote j m =
     m\<lparr>state := (state m)\<lparr>
        tiles := (tiles (state m))[j := (tiles (state m) ! j)\<lparr>t_state := DENOISE\<rparr>],
        denoise_tiles := (denoise_tiles (state m))[0 := denoise_tiles (state m) ! 0 @ [int j]]\<rparr>\<rparr>"

text \<open>The denoise queue holds the tiles in state \<open>DENOISE\<close>, each once.\<close>

definition queue_ok :: "TileManager \<Rightarrow> bool" where
  "queue_ok m =
     (distinct (denoise_tiles (state m) ! 0)
      \<and> set (denoise_tiles (state m) ! 0) = int ` {i. i < 9 \<and> tile_state_of m i = DENOISE})"

text \<open>All of the eight neighbours of tile \<open>j\<close> that are in the grid have been rendered.\<close>

definition eligible :: "(nat \<Rightarrow> TileState) \<Rightarrow> nat \<Rightarrow> bool" where
  "eligible s j = list_all (\<lambda>k. s k \<noteq> RENDER) (List.map_filter (nbr j) [0..<8])"

text \<open>\<open>j\<close> is tile \<open>i\<close> or one of its neighbours in the grid.\<close>

definition near :: "nat \<Rightarrow> nat \<Rightarrow> bool" where
  "near i j = (j \<in> set (List.map_filter (nbr i) [0..<9]))"

text \<open>The 3 x 3 scenario after the tiles of the set \<open>S\<close> have been returned: those tiles are
  rendered, and waiting for denoising exactly when their whole neighbourhood is in \<open>S\<close>.\<close>

definition returned_inv :: "nat set \<Rightarrow> TileManager \<Rightarrow> bool" where
  "returned_inv S m =
     (grid3 m \<and> queue_ok m
      \<and> (\<forall>i<9. tile_state_of m i =
            (if i \<notin> S then RENDER
             else if (\<forall>j<9. near i j \<longrightarrow> j \<in> S) then DENOISE else RENDERED)))"

text \<open>A run of the manager: calls of \<open>next_tile(tile, dev)\<close> and \<open>return_tile(index, \<dots>)\<close>
  in some order; \<open>run_calls\<close> collects what the calls of \<open>next_tile\<close> returned.\<close>

datatype manager_call = NextTile int | ReturnTile int

fun run_calls :: "manager_call list \<Rightarrow> TileManager \<Rightarrow> (int option list \<times> TileManager) option" where
  "run_calls [] m = Some ([], m)"
| "run_calls (NextTile dev # calls) m = do {
     r \<leftarrow> next_tile dev m;
     rs \<leftarrow> run_calls calls (snd r);
     Some (fst r # fst rs, snd rs)
   }"
| "run_calls (ReturnTile index # calls) m = do {
     r \<leftarrow> return_tile index m;
     run_calls calls (snd r)
   }"

text \<open>Whether \<open>next_tile(tile, dev)\<close> takes its tile from a denoise queue.\<close>

definition from_denoise_queue :: "int \<Rightarrow> TileManager \<Rightarrow> bool" where
  "from_denoise_queue dev m =
     (let l = size_t_of_int (if preserve_tile_device m then dev else 0)
      in l < length (denoise_tiles (state m)) \<and> denoise_tiles (state m) ! l \<noteq> [])"

text \<open>The tiles that the calls of \<open>next_tile\<close> in a run hand out, each with the queue it
  came from (\<open>True\<close>: a denoise queue, \<open>False\<close>: a render queue).\<close>

fun dispatches ::
  "manager_call list \<Rightarrow> TileManager \<Rightarrow> ((bool \<times> int) list \<times> TileManager) option" where
  "dispatches [] m = Some ([], m)"
| "dispatches (NextTile dev # calls) m = do {
     r \<leftarrow> next_tile dev m;
     rs \<leftarrow> dispatches calls (snd r);
     Some ((case fst r of None \<Rightarrow> [] | Some idx \<Rightarrow> [(from_denoise_queue dev m, idx)]) @ fst rs,
           snd rs)
   }"
| "dispatches (ReturnTile index # calls) m = do {
     r \<leftarrow> return_tile index m;
     dispatches calls (snd r)
   }"

text \<open>
  \<open>dispatch_inv m R D\<close>: when the tiles in \<open>R\<close> have been handed out from the render queues
  and those in \<open>D\<close> from the denoise queues, no tile is in \<open>R\<close> or a render queue twice, none
  is in \<open>D\<close> or a denoise queue twice, and the latter are past the state \<open>RENDERED\<close>.
\<close>

definition dispatch_inv :: "TileManager \<Rightarrow> int multiset \<Rightarrow> int multiset \<Rightarrow> bool" where
  "dispatch_inv m R D =
     ((\<forall>j. count (mset (concat (render_tiles (state m))) + R) j \<le> 1)
      \<and> (\<forall>j. count (mset (concat (denoise_tiles (state m))) + D) j \<le> 1)
      \<and> (\<forall>j. j \<in># mset (concat (denoise_tiles (state m))) + D \<longrightarrow>
             0 \<le> j \<and> j < int (length (tiles (state m)))
             \<and> 2 \<le> TileState_value (t_state (tiles (state m) ! nat j))))"

text \<open>A 64 x 64 image that is a single tile of 64 x 64, one device, \<open>schedule_denoising\<close>
  set after construction, after \<open>set_tiles\<close>.\<close>

definition single_tile_scenario :: "TileManager option" where
  "single_tile_scenario =
     map_option (\<lambda>m. m\<lparr>schedule_denoising := True\<rparr>)
       (TileManager_new BufferParams_zero 0 False 1 (64, 64) INT_MAX False True
          TILE_CENTER 1 False)
       \<bind> reset BufferParams_zero (image_params 64 64) 1
       \<bind> set_tiles unset_tile"

section \<open>Basic facts\<close>

lemma cdiv_nonneg: "0 \<le> a \<Longrightarrow> 0 < b \<Longrightarrow> cdiv a b = a div b"
  by (cases "a = 0") (simp_all add: cdiv_def)

lemma divide_int_Some [simp]: "b \<noteq> 0 \<Longrightarrow> divide_int a b = Some (cdiv a b)"
  by (simp add: divide_int_def)

section \<open>The Hilbert curve inside a block\<close>

lemma hilbert_rx: "(drop_bit 1 (d::int)) AND 1 = (d div 2) mod 2"
  by (simp add: and_one_eq drop_bit_eq_div)

lemma hilbert_ry: "((d::int) XOR ((d div 2) mod 2)) AND 1 = (d + d div 2) mod 2"
  by (simp add: and_one_eq mod_2_eq_odd even_xor_iff)

lemma hilbert_step_alt:
  "hilbert_step s q xy =
     (let rx = (q div 2) mod 2; ry = (q + q div 2) mod 2;
          xy1 = (if ry = 0
                 then (let xy' = (if rx \<noteq> 0 then (s - 1 - fst xy, s - 1 - snd xy) else xy)
                       in (snd xy', fst xy'))
                 else xy)
      in (fst xy1 + rx * s, snd xy1 + ry * s))"
  unfolding hilbert_step_def Let_def hilbert_rx hilbert_ry ..

lemma hilbert_step_mod4: "hilbert_step s (d mod 4) xy = hilbert_step s d xy"
proof -
  have a: "((d mod 4) div 2) mod 2 = (d div 2) mod 2" by presburger
  have b: "(d mod 4 + (d mod 4) div 2) mod 2 = (d + d div 2) mod 2" by presburger
  show ?thesis unfolding hilbert_step_alt Let_def a b ..
qed

lemma hilbert_loop_step:
  "0 < s \<Longrightarrow> s < n \<Longrightarrow>
   hilbert_loop n s d xy = hilbert_loop n (s * 2) (d div 4) (hilbert_step s (d mod 4) xy)"
  apply (subst hilbert_loop.simps)
  apply (simp only: hilbert_step_mod4)
  apply (simp add: hilbert_step_def Let_def drop_bit_eq_div)
  done

lemma hilbert_loop_stop: "\<not> s < n \<Longrightarrow> hilbert_loop n s d xy = xy"
  by (subst hilbert_loop.simps) simp

lemma mod4_cases: "(q::int) mod 4 = 0 \<or> q mod 4 = 1 \<or> q mod 4 = 2 \<or> q mod 4 = 3"
  by presburger

lemma hilbert_step_0: "hilbert_step s 0 xy = (snd xy, fst xy)"
  by (simp add: hilbert_step_def)

lemma hilbert_step_1: "hilbert_step s 1 xy = (fst xy, snd xy + s)"
  by (simp add: hilbert_step_def)

lemma hilbert_step_2: "hilbert_step s 2 xy = (fst xy + s, snd xy + s)"
  by (simp add: hilbert_step_def)

lemma hilbert_step_3: "hilbert_step s 3 xy = (s - 1 - snd xy + s, s - 1 - fst xy)"
  by (simp add: hilbert_step_def)

lemmas hilbert_step_digits = hilbert_step_0 hilbert_step_1 hilbert_step_2 hilbert_step_3

lemma hilbert_step_range:
  "0 < s \<Longrightarrow> xy \<in> square_grid s \<Longrightarrow> hilbert_step s (d mod 4) xy \<in> square_grid (s * 2)"
  using mod4_cases[of d] by (auto simp: hilbert_step_digits square_grid_def)

lemma hilbert_step_inj:
  "0 < s \<Longrightarrow> xy \<in> square_grid s \<Longrightarrow> xy' \<in> square_grid s \<Longrightarrow>
   hilbert_step s (d mod 4) xy = hilbert_step s (d' mod 4) xy' \<Longrightarrow>
   d mod 4 = d' mod 4 \<and> xy = xy'"
  using mod4_cases[of d] mod4_cases[of d']
  by (auto simp: hilbert_step_digits square_grid_def prod_eq_iff)

text \<open>From round \<open>j\<close> on, the loop maps the remaining digits and the position reached so far
  one-to-one into the grid of side \<open>2 ^ k\<close>.\<close>

lemma hilbert_loop_inj_range:
  "j \<le> k \<Longrightarrow> d \<in> {0..<4 ^ (k - j)} \<Longrightarrow> xy \<in> square_grid (2 ^ j) \<Longrightarrow>
     hilbert_loop (2 ^ k) (2 ^ j) d xy \<in> square_grid (2 ^ k) \<and>
     (\<forall>d' xy'. d' \<in> {0..<4 ^ (k - j)} \<longrightarrow> xy' \<in> square_grid (2 ^ j) \<longrightarrow>
        hilbert_loop (2 ^ k) (2 ^ j) d' xy' = hilbert_loop (2 ^ k) (2 ^ j) d xy \<longrightarrow>
        d' = d \<and> xy' = xy)"
proof (induction "k - j" arbitrary: j d xy)
  case 0
  then have "j = k" by simp
  with 0 show ?case by (simp add: hilbert_loop_stop)
next
  case (Suc m)
  then have jk: "j < k" and m: "m = k - Suc j" by auto
  have s: "(0::int) < 2 ^ j" "(2::int) ^ j < 2 ^ k" using jk by auto
  have p4: "(4::int) ^ (k - j) = 4 * 4 ^ (k - Suc j)"
    using jk by (metis Suc_diff_Suc power_Suc)
  have dd: "d div 4 \<in> {0..<4 ^ (k - Suc j)}" using Suc.prems(2) p4 by auto
  let ?xy2 = "hilbert_step (2 ^ j) (d mod 4) xy"
  have r: "?xy2 \<in> square_grid (2 ^ Suc j)"
    using hilbert_step_range[OF s(1) Suc.prems(3), of d] by (simp add: mult.commute)
  have IH: "hilbert_loop (2 ^ k) (2 ^ Suc j) (d div 4) ?xy2 \<in> square_grid (2 ^ k) \<and>
     (\<forall>d' xy'. d' \<in> {0..<4 ^ (k - Suc j)} \<longrightarrow> xy' \<in> square_grid (2 ^ Suc j) \<longrightarrow>
        hilbert_loop (2 ^ k) (2 ^ Suc j) d' xy' = hilbert_loop (2 ^ k) (2 ^ Suc j) (d div 4) ?xy2
        \<longrightarrow> d' = d div 4 \<and> xy' = ?xy2)"
    using Suc.hyps(1)[OF m _ dd r] jk by simp
  have step: "\<And>e p. hilbert_loop (2 ^ k) (2 ^ j) e p =
      hilbert_loop (2 ^ k) (2 ^ Suc j) (e div 4) (hilbert_step (2 ^ j) (e mod 4) p)"
    using hilbert_loop_step[OF s] by (simp add: mult.commute)
  show ?case
  proof (intro conjI allI impI)
    show "hilbert_loop (2 ^ k) (2 ^ j) d xy \<in> square_grid (2 ^ k)" using IH step by simp
  next
    fix d' xy'
    assume a: "d' \<in> {0..<4 ^ (k - j)}" "xy' \<in> square_grid (2 ^ j)"
      "hilbert_loop (2 ^ k) (2 ^ j) d' xy' = hilbert_loop (2 ^ k) (2 ^ j) d xy"
    have dd': "d' div 4 \<in> {0..<4 ^ (k - Suc j)}" using a(1) p4 by auto
    have r': "hilbert_step (2 ^ j) (d' mod 4) xy' \<in> square_grid (2 ^ Suc j)"
      using hilbert_step_range[OF s(1) a(2), of d'] by (simp add: mult.commute)
    from a(3) have hi: "d' div 4 = d div 4 \<and> hilbert_step (2 ^ j) (d' mod 4) xy' = ?xy2"
      using IH dd' r' unfolding step by blast
    then have lo: "d' mod 4 = d mod 4 \<and> xy' = xy"
      using hilbert_step_inj[OF s(1) a(2) Suc.prems(3), of d' d] by simp
    from hi lo show "d' = d" by (metis div_mult_mod_eq)
    from lo show "xy' = xy" by simp
  qed
qed

lemma hilbert_pos_inj_range:
  assumes "d \<in> {0..<2 ^ k * 2 ^ k}"
  shows "hilbert_index_to_pos (2 ^ k) d \<in> square_grid (2 ^ k)"
    and "d' \<in> {0..<2 ^ k * 2 ^ k} \<Longrightarrow>
         hilbert_index_to_pos (2 ^ k) d' = hilbert_index_to_pos (2 ^ k) d \<Longrightarrow> d' = d"
proof -
  have A: "{0..<(2::int) ^ k * 2 ^ k} = {0..<4 ^ k}" by (simp add: power_mult_distrib[symmetric])
  have o: "(0, 0) \<in> square_grid (2 ^ 0)" by (simp add: square_grid_def)
  have key: "hilbert_index_to_pos (2 ^ k) d \<in> square_grid (2 ^ k)
      \<and> (\<forall>d'\<in>{0..<4 ^ k}. hilbert_index_to_pos (2 ^ k) d' = hilbert_index_to_pos (2 ^ k) d
            \<longrightarrow> d' = d)"
    using hilbert_loop_inj_range[of 0 k d "(0, 0)"] o assms unfolding A
    by (simp add: hilbert_index_to_pos_def)
  show "hilbert_index_to_pos (2 ^ k) d \<in> square_grid (2 ^ k)" using key by simp
  show "d' \<in> {0..<2 ^ k * 2 ^ k} \<Longrightarrow>
         hilbert_index_to_pos (2 ^ k) d' = hilbert_index_to_pos (2 ^ k) d \<Longrightarrow> d' = d"
    using key unfolding A by blast
qed

lemma hilbert_tile_inj_range:
  assumes "d \<in> {0..<2 ^ k * 2 ^ k}"
  shows "hilbert_tile (2 ^ k) prev_dir dir d \<in> square_grid (2 ^ k)"
    and "d' \<in> {0..<2 ^ k * 2 ^ k} \<Longrightarrow>
         hilbert_tile (2 ^ k) prev_dir dir d' = hilbert_tile (2 ^ k) prev_dir dir d \<Longrightarrow> d' = d"
proof -
  show "hilbert_tile (2 ^ k) prev_dir dir d \<in> square_grid (2 ^ k)"
    using hilbert_pos_inj_range(1)[OF assms]
    by (auto simp: hilbert_tile_def Let_def square_grid_def)
  assume d': "d' \<in> {0..<2 ^ k * 2 ^ k}"
    and e: "hilbert_tile (2 ^ k) prev_dir dir d' = hilbert_tile (2 ^ k) prev_dir dir d"
  from e have "hilbert_index_to_pos (2 ^ k) d' = hilbert_index_to_pos (2 ^ k) d"
    by (auto simp: hilbert_tile_def Let_def prod_eq_iff split: if_splits)
  then show "d' = d" using hilbert_pos_inj_range(2)[OF assms d'] by simp
qed

text \<open>
  Claim C9.  For every side length \<open>H = 2 ^ k\<close>, \<open>hilbert_index_to_pos H\<close> maps the indices
  \<open>0, \<dots>, H * H - 1\<close> one-to-one onto the grid \<open>{0, \<dots>, H - 1} \<times> {0, \<dots>, H - 1}\<close>.
  (In the code \<open>H\<close> is 4 or 8; the C++ \<open>int\<close> holds \<open>H * H\<close> up to \<open>k = 15\<close>.)
\<close>

theorem hilbert_index_to_pos_bij:
  "bij_betw (hilbert_index_to_pos (2 ^ k)) {0..<2 ^ k * 2 ^ k} ({0..<2 ^ k} \<times> {0..<2 ^ k})"
proof -
  let ?f = "hilbert_index_to_pos (2 ^ k)"
  let ?A = "{0..<(4::int) ^ k}" and ?B = "square_grid (2 ^ k)"
  have A: "{0..<(2::int) ^ k * 2 ^ k} = ?A" by (simp add: power_mult_distrib[symmetric])
  have o: "(0, 0) \<in> square_grid (2 ^ 0)" by (simp add: square_grid_def)
  have key: "\<And>d. d \<in> ?A \<Longrightarrow> ?f d \<in> ?B \<and> (\<forall>d'\<in>?A. ?f d' = ?f d \<longrightarrow> d' = d)"
    using hilbert_loop_inj_range[of 0 k _ "(0, 0)"] o by (simp add: hilbert_index_to_pos_def)
  have inj: "inj_on ?f ?A" using key by (auto simp: inj_on_def)
  have sub: "?f ` ?A \<subseteq> ?B" using key by auto
  have "card (?f ` ?A) = card ?A" using inj by (rule card_image)
  also have "\<dots> = 4 ^ k" by (simp add: nat_power_eq)
  also have "\<dots> = (2::nat) ^ k * 2 ^ k" by (simp add: power_mult_distrib[symmetric])
  also have "\<dots> = card ?B" by (simp add: square_grid_def nat_power_eq)
  finally have "?f ` ?A = ?B" using sub by (simp add: card_subset_eq square_grid_def)
  with inj show ?thesis unfolding A by (simp add: bij_betw_def square_grid_def)
qed

section \<open>The preview divider\<close>

lemma halving_halved: "max 1 (cdiv v 2) = halved 1 v"
proof (cases "0 \<le> v")
  case True
  then show ?thesis by (simp add: halved_def cdiv_nonneg)
next
  case False
  then have "cdiv v 2 \<le> 0" by (simp add: cdiv_def sgn_if)
  moreover from False have "v div 2 \<le> 0" by simp
  ultimately show ?thesis by (simp add: halved_def)
qed

lemma halved_Suc: "halved k (halved 1 v) = halved (Suc k) v"
proof (cases "k = 0")
  case True
  then show ?thesis by (simp add: halved_def)
next
  case k: False
  show ?thesis
  proof (cases "2 \<le> v")
    case True
    then have "max 1 (v div 2) = v div 2" by simp
    moreover have "v div 2 div 2 ^ k = v div 2 ^ Suc k" by (simp add: zdiv_zmult2_eq)
    ultimately show ?thesis using k by (simp add: halved_def)
  next
    case False
    then have a: "max 1 (v div 2) = 1" by simp
    have b: "(1::int) < 2 ^ k" using k by (simp add: one_less_power)
    have "v div 2 ^ Suc k \<le> 0"
    proof (cases "v < 0")
      case True
      then show ?thesis by (simp add: div_neg_pos_less0 less_imp_le)
    next
      case False
      with \<open>\<not> 2 \<le> v\<close> b have "v < 2 ^ Suc k" "0 \<le> v" by simp_all
      then show ?thesis by (simp add: div_pos_pos_trivial)
    qed
    then show ?thesis using k a b by (simp add: halved_def div_pos_pos_trivial)
  qed
qed

lemma wrap_int_fits: "fits_int v \<Longrightarrow> wrap_int v = v"
  unfolding fits_int_def wrap_int_def by (rule signed_take_bit_int_eq_self) simp_all

text \<open>One halving of a product of at least 2 at least halves it.\<close>

lemma halved_product:
  assumes "1 \<le> w" "1 \<le> h" "2 \<le> w * h"
  shows "2 * (halved 1 w * halved 1 h) \<le> w * h"
proof (cases "2 \<le> w")
  case True
  then have w: "halved 1 w = w div 2" by (simp add: halved_def)
  have "2 * (w div 2) \<le> w" by simp
  moreover have "1 \<le> halved 1 h" "halved 1 h \<le> h" using assms(2) by (simp_all add: halved_def)
  ultimately have "2 * (w div 2) * halved 1 h \<le> w * h"
    using assms(1) by (intro mult_mono) simp_all
  then show ?thesis unfolding w by (simp only: mult.assoc)
next
  case False
  then have w1: "w = 1" using assms(1) by simp
  then have "2 \<le> h" using assms(3) by simp
  then have "halved 1 h = h div 2" by (simp add: halved_def)
  then show ?thesis using w1 by (simp add: halved_def)
qed

lemma get_divider_loop_least_pos:
  "1 \<le> w \<Longrightarrow> 1 \<le> h \<Longrightarrow> 1 \<le> d \<Longrightarrow> d * (w * h) < 2 ^ 31 \<Longrightarrow> s \<noteq> 0 \<Longrightarrow> fits_int (s * s) \<Longrightarrow>
   \<exists>k. get_divider_loop w h s d = Some (d * 2 ^ k) \<and> halved k w * halved k h \<le> s * s \<and>
       (\<forall>j<k. \<not> halved j w * halved j h \<le> s * s)"
proof (induction "nat (w + h)" arbitrary: w h d rule: less_induct)
  case less
  have wh1: "1 \<le> w * h" using less.prems(1,2) by (smt (verit) mult_le_cancel_left1)
  have "w * h \<le> d * (w * h)" using less.prems(3) wh1 by (simp add: mult_le_cancel_right1)
  then have fit: "fits_int (w * h)" using wh1 less.prems(4) by (simp add: fits_int_def)
  note cmp = wrap_int_fits[OF fit] wrap_int_fits[OF less.prems(6)]
  show ?case
  proof (cases "w * h > s * s")
    case False
    then have "get_divider_loop w h s d = Some (d * 2 ^ 0)"
      by (subst get_divider_loop.simps) (simp add: cmp)
    moreover have "halved 0 w * halved 0 h \<le> s * s" using False by (simp add: halved_def)
    ultimately show ?thesis by blast
  next
    case True
    let ?w = "halved 1 w" and ?h = "halved 1 h"
    have "1 \<le> s * s" using less.prems(5) by (smt (verit) mult_eq_0_iff zero_le_square)
    with True have two: "2 \<le> w * h" by simp
    then have "2 \<le> w \<or> 2 \<le> h" using less.prems by (smt (verit) mult_cancel_left1)
    then have dec: "nat (?w + ?h) < nat (w + h)" using less.prems by (auto simp: halved_def)
    have pos: "1 \<le> ?w" "1 \<le> ?h" by (simp_all add: halved_def)
    have "2 * d * (?w * ?h) = d * (2 * (?w * ?h))" by simp
    also have "\<dots> \<le> d * (w * h)"
      using halved_product[OF less.prems(1,2) two] less.prems(3) by (intro mult_left_mono) simp_all
    finally have "2 * d * (?w * ?h) \<le> d * (w * h)" .
    then have small: "2 * d * (?w * ?h) < 2 ^ 31" using less.prems(4) by (rule le_less_trans)
    have wh1': "1 \<le> ?w * ?h" using pos by (smt (verit) mult_le_cancel_left1)
    have "2 * d * 1 \<le> 2 * d * (?w * ?h)" using less.prems(3) by (intro mult_left_mono wh1') simp
    then have "2 * d < 2 ^ 31" using small by linarith
    then have "fits_int (2 * d)" using less.prems(3) by (simp add: fits_int_def)
    then have "wrap_int (2 * d) = 2 * d" by (rule wrap_int_fits)
    then have dbl: "wrap_int (d * 2) = 2 * d" by (simp add: mult.commute)
    have d2: "1 \<le> 2 * d" using less.prems(3) by simp
    from less.hyps[OF dec pos d2 small less.prems(5,6)]
    obtain k where k: "get_divider_loop ?w ?h s (2 * d) = Some (2 * d * 2 ^ k)"
        "halved k ?w * halved k ?h \<le> s * s" "\<forall>j<k. \<not> halved j ?w * halved j ?h \<le> s * s"
      by blast
    have "get_divider_loop w h s d = Some (d * 2 ^ Suc k)"
      using True k(1)
      by (subst get_divider_loop.simps) (simp add: cmp push_bit_eq_mult dbl halving_halved)
    moreover have "halved (Suc k) w * halved (Suc k) h \<le> s * s"
      using k(2) by (simp only: halved_Suc)
    moreover have "\<forall>j<Suc k. \<not> halved j w * halved j h \<le> s * s"
    proof (intro allI impI)
      fix j assume j: "j < Suc k"
      show "\<not> halved j w * halved j h \<le> s * s"
      proof (cases j)
        case 0
        then show ?thesis using True by (simp add: halved_def)
      next
        case (Suc j')
        then show ?thesis using k(3) j by (simp only: halved_Suc[symmetric]) simp
      qed
    qed
    ultimately show ?thesis by blast
  qed
qed

lemma get_divider_loop_least:
  assumes "s \<noteq> 0" "fits_int (s * s)" "fits_int (w * h)"
  shows "\<exists>k. get_divider_loop w h s 1 = Some (2 ^ k) \<and> halved k w * halved k h \<le> s * s \<and>
       (\<forall>j<k. \<not> halved j w * halved j h \<le> s * s)"
proof (cases "w * h > s * s")
  case False
  then have "get_divider_loop w h s 1 = Some (2 ^ 0)"
    by (subst get_divider_loop.simps) (simp add: wrap_int_fits assms)
  moreover have "halved 0 w * halved 0 h \<le> s * s" using False by (simp add: halved_def)
  ultimately show ?thesis by blast
next
  case True
  let ?w = "halved 1 w" and ?h = "halved 1 h"
  have pos: "1 \<le> ?w" "1 \<le> ?h" by (simp_all add: halved_def)
  have "1 \<le> s * s" using assms(1) by (smt (verit) mult_eq_0_iff zero_le_square)
  with True have two: "2 \<le> w * h" by simp
  have small: "2 * (?w * ?h) < 2 ^ 31"
  proof (cases "1 \<le> w \<and> 1 \<le> h")
    case True
    then have "2 * (?w * ?h) \<le> w * h" using halved_product[of w h] two by blast
    moreover have "w * h < 2 ^ 31" using assms(3) by (simp add: fits_int_def)
    ultimately show ?thesis by (rule le_less_trans)
  next
    case False
    then have "w \<le> 0 \<or> h \<le> 0" by auto
    moreover have "0 < w * h" using two by simp
    ultimately have "w < 0 \<and> h < 0" by (smt (verit) zero_less_mult_iff)
    then have "w div 2 \<le> 0" "h div 2 \<le> 0" by (simp_all add: div_neg_pos_less0 less_imp_le)
    then have "?w = 1" "?h = 1" by (simp_all add: halved_def)
    then show ?thesis by simp
  qed
  have dbl: "wrap_int 2 = 2" by (simp add: wrap_int_fits fits_int_def)
  from get_divider_loop_least_pos[OF pos _ _ assms(1,2), of 2] small
  obtain k where k: "get_divider_loop ?w ?h s 2 = Some (2 * 2 ^ k)"
      "halved k ?w * halved k ?h \<le> s * s" "\<forall>j<k. \<not> halved j ?w * halved j ?h \<le> s * s"
    by auto
  have "get_divider_loop w h s 1 = Some (2 ^ Suc k)"
    using True k(1)
    by (subst get_divider_loop.simps) (simp add: wrap_int_fits assms dbl halving_halved)
  moreover have "halved (Suc k) w * halved (Suc k) h \<le> s * s"
    using k(2) by (simp only: halved_Suc)
  moreover have "\<forall>j<Suc k. \<not> halved j w * halved j h \<le> s * s"
  proof (intro allI impI)
    fix j assume j: "j < Suc k"
    show "\<not> halved j w * halved j h \<le> s * s"
    proof (cases j)
      case 0
      then show ?thesis using True by (simp add: halved_def)
    next
      case (Suc j')
      then show ?thesis using k(3) j by (simp only: halved_Suc[symmetric]) simp
    qed
  qed
  ultimately show ?thesis by blast
qed

lemma get_divider_sentinel [simp]: "get_divider w h INT_MAX = Some 1"
  by (simp add: get_divider_def)

lemma set_samples_returns:
  assumes "get_divider (width (params m)) (height (params m)) (start_resolution m) = Some d"
  shows "\<exists>m'. set_samples n m = Some m' \<and> params m' = params m
              \<and> start_resolution m' = start_resolution m"
  using assms by (simp add: set_samples_def Let_def)

lemma reset_divider:
  assumes "get_divider (width p) (height p) (start_resolution m) = Some d"
  shows "\<exists>m'. reset buffer_init p n m = Some m' \<and> resolution_divider (state m') = d"
proof -
  obtain m1 where m1: "set_samples n (m\<lparr>params := p\<rparr>) = Some m1" "params m1 = p"
      "start_resolution m1 = start_resolution m"
    using set_samples_returns[of "m\<lparr>params := p\<rparr>" d n] assms by auto
  with assms show ?thesis by (simp add: reset_def)
qed

text \<open>
  Claim C6, as stated, fails: for a 1 x 100 image and \<open>start_resolution = 2\<close> the code sets the
  divider to 32, although one shift already gives \<open>(1 >> 1) * (100 >> 1) = 0 \<le> 2 * 2\<close>.
\<close>

theorem reset_divider_counterexample:
  "map_option (resolution_divider \<circ> state)
     (TileManager_new BufferParams_zero 0 False 1 (64, 64) 2 False True TILE_CENTER 1 False
        \<bind> reset BufferParams_zero (image_params 1 100) 1) = Some 32
   \<and> drop_bit 1 (1::int) * drop_bit 1 (100::int) \<le> 2 * 2 \<and> (2::int) ^ 1 < 32"
  by code_simp

text \<open>
  Where a product of \<open>get_divider\<close> overflows, the code leaves what the amended claim
  describes: the product of 65536 and 65536 is 0 in 32 bits, and the divider stays 1.
\<close>

lemma get_divider_overflow: "get_divider 65536 65536 64 = Some 1"
  by code_simp

text \<open>
  Claim C6, amended.  When \<open>start_resolution\<close> is \<open>INT_MAX\<close>, \<open>reset\<close> sets the divider to 1.
  Otherwise, when \<open>start_resolution\<close> is not 0 and neither its square nor the product of
  the width and the height of the image overflows an \<open>int\<close>, \<open>reset\<close> returns and sets the
  divider to the smallest power of two \<open>2 ^ k\<close> for which the sizes after \<open>k\<close> halvings, each
  halving clamped from below at 1 (\<open>halved k w = max 1 (w >> k)\<close> for \<open>k > 0\<close>), satisfy
  \<open>halved k w * halved k h \<le> start_resolution * start_resolution\<close>.
\<close>

theorem reset_resolution_divider:
  "(start_resolution m = INT_MAX \<longrightarrow>
      (\<exists>m'. reset buffer_init p n m = Some m' \<and> resolution_divider (state m') = 1)) \<and>
   (start_resolution m \<noteq> INT_MAX \<and> start_resolution m \<noteq> 0
      \<and> fits_int (start_resolution m * start_resolution m)
      \<and> fits_int (width p * height p) \<longrightarrow>
      (\<exists>m' k. reset buffer_init p n m = Some m' \<and> resolution_divider (state m') = 2 ^ k \<and>
          halved k (width p) * halved k (height p) \<le> start_resolution m * start_resolution m \<and>
          (\<forall>j<k. \<not> halved j (width p) * halved j (height p)
                     \<le> start_resolution m * start_resolution m)))"
proof (intro conjI impI)
  assume s: "start_resolution m = INT_MAX"
  then have "get_divider (width p) (height p) (start_resolution m) = Some 1" by simp
  from reset_divider[OF this, of buffer_init n]
  show "\<exists>m'. reset buffer_init p n m = Some m' \<and> resolution_divider (state m') = 1" .
next
  assume s: "start_resolution m \<noteq> INT_MAX \<and> start_resolution m \<noteq> 0
      \<and> fits_int (start_resolution m * start_resolution m) \<and> fits_int (width p * height p)"
  then obtain k where k: "get_divider_loop (width p) (height p) (start_resolution m) 1 = Some (2 ^ k)"
      "halved k (width p) * halved k (height p) \<le> start_resolution m * start_resolution m"
      "\<forall>j<k. \<not> halved j (width p) * halved j (height p)
                     \<le> start_resolution m * start_resolution m"
    using get_divider_loop_least[of "start_resolution m" "width p" "height p"] by blast
  have "get_divider (width p) (height p) (start_resolution m) = Some (2 ^ k)"
    using s k(1) by (simp add: get_divider_def)
  from reset_divider[OF this, of buffer_init n]
  obtain m' where "reset buffer_init p n m = Some m'" "resolution_divider (state m') = 2 ^ k"
    by blast
  then show "\<exists>m' k. reset buffer_init p n m = Some m' \<and> resolution_divider (state m') = 2 ^ k \<and>
          halved k (width p) * halved k (height p) \<le> start_resolution m * start_resolution m \<and>
          (\<forall>j<k. \<not> halved j (width p) * halved j (height p)
                     \<le> start_resolution m * start_resolution m)"
    using k(2,3) by blast
qed

theorem reset_resolution_divider_witness:
  "\<exists>m' k. reset BufferParams_zero (image_params 512 512) 1
             (TileManager_members BufferParams_zero 0 True 1 (64, 64) 64 False False
                TILE_CENTER 1 False) = Some m'
     \<and> resolution_divider (state m') = 2 ^ k
     \<and> halved k 512 * halved k 512 \<le> 64 * 64
     \<and> (\<forall>j<k. \<not> halved j 512 * halved j 512 \<le> 64 * 64)"
  using reset_resolution_divider[of
      "TileManager_members BufferParams_zero 0 True 1 (64, 64) 64 False False TILE_CENTER 1 False"
      BufferParams_zero "image_params 512 512" 1]
  by (simp add: TileManager_members_def image_params_def INT_MAX_def fits_int_def)

section \<open>The rank of the feature transform\<close>

lemma transform_energy_loop_rank:
  "i \<le> F \<Longrightarrow>
   i \<le> snd (transform_energy_loop ops F fm fs te i tr i re)
   \<and> snd (transform_energy_loop ops F fm fs te i tr i re) \<le> F
   \<and> (snd (transform_energy_loop ops F fm fs te i tr i re) < F
        \<longrightarrow> 2 \<le> snd (transform_energy_loop ops F fm fs te i tr i re))"
proof (induction "F - i" arbitrary: i tr re)
  case 0
  then show ?case by (simp add: transform_energy_loop.simps)
next
  case (Suc k)
  then have lt: "i < F" and k: "k = F - (i + 1)" "i + 1 \<le> F" by auto
  show ?case
  proof (cases "i \<ge> 2 \<and> f_greater_eq ops re te")
    case True
    with lt have "transform_energy_loop ops F fm fs te i tr i re = (tr, i)"
      by (subst transform_energy_loop.simps) simp
    with True lt show ?thesis by simp
  next
    case False
    with lt have "transform_energy_loop ops F fm fs te i tr i re =
        transform_energy_loop ops F fm fs te (i + 1)
          (math_vector_mul ops tr (i * F) fs F) (i + 1) (f_add ops re (fm (i * F + i)))"
      by (subst transform_energy_loop.simps) (auto simp: Let_def)
    with Suc.hyps(1)[OF k, of "math_vector_mul ops tr (i * F) fs F" "f_add ops re (fm (i * F + i))"]
    show ?thesis by simp
  qed
qed

lemma transform_deviation_loop_rank:
  "i \<le> F \<Longrightarrow>
   i \<le> snd (transform_deviation_loop ops F fm fs p i tr i)
   \<and> snd (transform_deviation_loop ops F fm fs p i tr i) \<le> F
   \<and> (snd (transform_deviation_loop ops F fm fs p i tr i) < F
        \<longrightarrow> 2 \<le> snd (transform_deviation_loop ops F fm fs p i tr i))"
proof (induction "F - i" arbitrary: i tr)
  case 0
  then show ?case by (simp add: transform_deviation_loop.simps)
next
  case (Suc k)
  then have lt: "i < F" and k: "k = F - (i + 1)" "i + 1 \<le> F" by auto
  show ?case
  proof (cases "i \<ge> 2 \<and> f_less ops (f_sqrt ops (fm (i * F + i))) (f_neg ops p)")
    case True
    with lt have "transform_deviation_loop ops F fm fs p i tr i = (tr, i)"
      by (subst transform_deviation_loop.simps) simp
    with True lt show ?thesis by simp
  next
    case False
    with lt have "transform_deviation_loop ops F fm fs p i tr i =
        transform_deviation_loop ops F fm fs p (i + 1)
          (math_vector_mul ops tr (i * F) fs F) (i + 1)"
      by (subst transform_deviation_loop.simps) (auto simp: Let_def)
    with Suc.hyps(1)[OF k, of "math_vector_mul ops tr (i * F) fs F"]
    show ?thesis by simp
  qed
qed

text \<open>
  Claim C8.  With at least two features (\<open>2 \<le> F\<close>), the rank that
  \<open>kernel_filter_construct_transform\<close> returns is at least 2 and at most \<open>F\<close>, whatever the
  arrays computed from the buffer hold, whatever \<open>pca_threshold\<close> is, and whatever the
  float operations return.
\<close>

theorem construct_transform_rank:
  "2 \<le> F \<Longrightarrow>
   2 \<le> snd (kernel_filter_construct_transform ops F feature_matrix transform feature_scale
              pca_threshold)
   \<and> snd (kernel_filter_construct_transform ops F feature_matrix transform feature_scale
            pca_threshold) \<le> F"
proof -
  assume F: "2 \<le> F"
  let ?te = "f_mul ops
      (foldl (\<lambda>e i. f_add ops e (feature_matrix (i * F + i))) (f_zero ops) [0..<F])
      (f_sub ops (f_one ops) pca_threshold)"
  let ?a = "transform_energy_loop ops F feature_matrix feature_scale ?te 0 transform 0 (f_zero ops)"
  let ?b = "transform_deviation_loop ops F feature_matrix feature_scale pca_threshold 0 transform 0"
  have a: "snd ?a \<le> F \<and> (snd ?a < F \<longrightarrow> 2 \<le> snd ?a)"
    using transform_energy_loop_rank[of 0 F ops feature_matrix feature_scale ?te transform
        "f_zero ops"] by blast
  have b: "snd ?b \<le> F \<and> (snd ?b < F \<longrightarrow> 2 \<le> snd ?b)"
    using transform_deviation_loop_rank[of 0 F ops feature_matrix feature_scale pca_threshold
        transform] by blast
  have "kernel_filter_construct_transform ops F feature_matrix transform feature_scale
          pca_threshold = (if f_less ops (f_zero ops) pca_threshold then ?a else ?b)"
    by (simp only: kernel_filter_construct_transform_def Let_def)
  moreover have "2 \<le> snd ?a \<and> snd ?a \<le> F" using a F by linarith
  moreover have "2 \<le> snd ?b \<and> snd ?b \<le> F" using b F by linarith
  ultimately show ?thesis by presburger
qed

theorem construct_transform_rank_witness:
  "(2::nat) \<le> 10
   \<and> 2 \<le> snd (kernel_filter_construct_transform int_ops 10
                (\<lambda>i. if i = 0 then 10 else if i = 11 then 1 else 0) (\<lambda>i. 1) (\<lambda>i. 1) 1)
   \<and> snd (kernel_filter_construct_transform int_ops 10
            (\<lambda>i. if i = 0 then 10 else if i = 11 then 1 else 0) (\<lambda>i. 1) (\<lambda>i. 1) 1) \<le> 10"
  using construct_transform_rank[of 10 int_ops
      "\<lambda>i. if i = 0 then 10 else if i = 11 then 1 else 0" "\<lambda>i. 1" "\<lambda>i. 1" 1]
  by simp

section \<open>Handing out tiles\<close>

text \<open>
  Claim C10.  When the logical device (\<open>dev\<close> if \<open>preserve_tile_device\<close>, else 0) is at least
  the number of render queues, \<open>next_tile\<close> returns false and changes nothing.  (\<open>dev\<close> is a
  C++ \<open>int\<close>, hence at most \<open>INT_MAX\<close>.)
\<close>

theorem next_tile_no_queue:
  "dev \<le> INT_MAX \<Longrightarrow>
   int (length (render_tiles (state m))) \<le> (if preserve_tile_device m then dev else 0) \<Longrightarrow>
   next_tile dev m = Some (None, m)"
proof -
  assume b: "dev \<le> INT_MAX"
    and l: "int (length (render_tiles (state m))) \<le> (if preserve_tile_device m then dev else 0)"
  let ?l = "if preserve_tile_device m then dev else 0"
  have "0 \<le> ?l" using l by (smt (verit) of_nat_0_le_iff)
  moreover have "?l < 2 ^ 64" using b by (simp add: INT_MAX_def)
  ultimately have "size_t_of_int ?l = nat ?l" by (simp add: size_t_of_int_def)
  then have "length (render_tiles (state m)) \<le> size_t_of_int ?l" using l by simp
  then show ?thesis by (simp add: next_tile_def Let_def)
qed

theorem next_tile_no_queue_witness:
  "(3::int) \<le> INT_MAX
   \<and> int (length (render_tiles (state (TileManager_members BufferParams_zero 0 False 1 (64, 64)
             64 True True TILE_CENTER 2 False))))
       \<le> (if preserve_tile_device (TileManager_members BufferParams_zero 0 False 1 (64, 64)
             64 True True TILE_CENTER 2 False) then 3 else 0)
   \<and> next_tile 3 (TileManager_members BufferParams_zero 0 False 1 (64, 64)
             64 True True TILE_CENTER 2 False)
       = Some (None, TileManager_members BufferParams_zero 0 False 1 (64, 64)
             64 True True TILE_CENTER 2 False)"
  using next_tile_no_queue[of 3 "TileManager_members BufferParams_zero 0 False 1 (64, 64)
             64 True True TILE_CENTER 2 False"]
  by (simp add: TileManager_members_def INT_MAX_def)

section \<open>Tile generation runs and what it leaves in the queues\<close>

lemma same_config_refl [simp]: "same_config m m"
  unfolding same_config_def
  by (rule exI[of _ "tiles (state m)"], rule exI[of _ "render_tiles (state m)"],
      rule exI[of _ "denoise_tiles (state m)"]) simp

lemma same_config_trans: "same_config a b \<Longrightarrow> same_config b c \<Longrightarrow> same_config a c"
  unfolding same_config_def by (elim exE conjE) (simp, blast)

lemma same_config_fields:
  assumes "same_config m m'"
  shows "params m' = params m" "tile_size m' = tile_size m" "tile_order m' = tile_order m"
    "only_denoise m' = only_denoise m" "preserve_tile_device m' = preserve_tile_device m"
    "background m' = background m" "num_devices m' = num_devices m"
    "progressive m' = progressive m" "num_samples m' = num_samples m"
    "range_start_sample m' = range_start_sample m" "range_num_samples m' = range_num_samples m"
    "schedule_denoising m' = schedule_denoising m" "start_resolution m' = start_resolution m"
    "length (tiles (state m')) = length (tiles (state m))"
    "length (render_tiles (state m')) = length (render_tiles (state m))"
    "length (denoise_tiles (state m')) = length (denoise_tiles (state m))"
    "length (tile_lists m') = length (tile_lists m)"
    "global_buffers (state m') = global_buffers (state m)"
    "sample (state m') = sample (state m)"
    "state_num_samples (state m') = state_num_samples (state m)"
    "resolution_divider (state m') = resolution_divider (state m)"
    "tile_stride (state m') = tile_stride (state m)"
    "num_tiles (state m') = num_tiles (state m)"
    "num_rendered_tiles (state m') = num_rendered_tiles (state m)"
    "buffer (state m') = buffer (state m)"
    "total_pixel_samples (state m') = total_pixel_samples (state m)"
  using assms unfolding same_config_def tile_lists_def by auto

lemma foldM_range:
  assumes "I 0 s"
    and "\<And>i s. i < n \<Longrightarrow> I i s \<Longrightarrow> \<exists>s'. f (int i) s = Some s' \<and> I (Suc i) s'"
  shows "\<exists>s'. foldM f (range_int (int n)) s = Some s' \<and> I n s'"
proof -
  have "\<And>k s. k \<le> n \<Longrightarrow> I (n - k) s \<Longrightarrow>
          \<exists>s'. foldM f (map int [n - k..<n]) s = Some s' \<and> I n s'"
  proof -
    fix k s show "k \<le> n \<Longrightarrow> I (n - k) s \<Longrightarrow>
          \<exists>s'. foldM f (map int [n - k..<n]) s = Some s' \<and> I n s'"
    proof (induction k arbitrary: s)
      case 0
      then show ?case by simp
    next
      case (Suc k)
      then have lt: "n - Suc k < n" by simp
      then obtain s1 where s1: "f (int (n - Suc k)) s = Some s1" "I (Suc (n - Suc k)) s1"
        using assms(2) Suc.prems(2) by blast
      have e: "Suc (n - Suc k) = n - k" using Suc.prems(1) by simp
      have "[n - Suc k..<n] = (n - Suc k) # [n - k..<n]"
        using lt e by (simp add: upt_conv_Cons)
      moreover obtain s' where "foldM f (map int [n - k..<n]) s1 = Some s'" "I n s'"
        using Suc.IH[of s1] s1(2) Suc.prems(1) e by auto
      ultimately show ?case using s1(1) by simp
    qed
  qed
  from this[of n s] assms(1) show ?thesis by (simp add: range_int_def)
qed

lemma mset_concat_update:
  "i < length xs \<Longrightarrow> mset (concat (xs[i := ys])) + mset (xs ! i) = mset (concat xs) + mset ys"
proof (induction xs arbitrary: i)
  case Nil
  then show ?case by simp
next
  case (Cons a xs)
  then show ?case by (cases i) (auto simp: ac_simps)
qed

lemma mset_concat_update_append:
  "i < length xs \<Longrightarrow> mset (concat (xs[i := xs ! i @ [a]])) = mset (concat xs) + {#a#}"
  using mset_concat_update[of i xs "xs ! i @ [a]"] by simp

lemma mset_concat_update_cons:
  "i < length xs \<Longrightarrow> mset (concat (xs[i := a # xs ! i])) = mset (concat xs) + {#a#}"
  using mset_concat_update[of i xs "a # xs ! i"] by simp

lemma mset_list_insert [simp]: "mset (list_insert cmp a xs) = add_mset a (mset xs)"
  by (induction xs) auto

lemma mset_list_sort [simp]: "mset (list_sort cmp xs) = mset xs"
  by (induction xs) (auto simp: list_sort_def)

lemma mset_concat_update_perm:
  "i < length xs \<Longrightarrow> mset ys = mset (xs ! i) \<Longrightarrow> mset (concat (xs[i := ys])) = mset (concat xs)"
  using mset_concat_update[of i xs ys] by simp

lemma tile_update_same:
  assumes "0 \<le> i" "i < int (length (tiles (state m)))"
  shows "\<exists>m'. tile_update i f m = Some m' \<and> same_config m m' \<and> queued m' = queued m
           \<and> tile_lists m' = tile_lists m
           \<and> tiles (state m') = (tiles (state m))[nat i := f (tiles (state m) ! nat i)]"
  using assms unfolding tile_update_def same_config_def
  apply simp
  apply (intro conjI)
    apply (rule exI[of _ "(tiles (state m))[nat i := f (tiles (state m) ! nat i)]"],
      rule exI[of _ "render_tiles (state m)"], rule exI[of _ "denoise_tiles (state m)"])
    apply simp
   apply (simp add: queued_def)
  apply (simp add: tile_lists_def)
  done

lemma tile_list_apply_same:
  assumes "li < length (tile_lists m)"
  shows "\<exists>m'. tile_list_apply li f m = Some m' \<and> same_config m m'
           \<and> tile_lists m' = (tile_lists m)[li := f (tile_lists m ! li)]
           \<and> queued m' + mset (tile_lists m ! li) = queued m + mset (f (tile_lists m ! li))
           \<and> tiles (state m') = tiles (state m)"
proof (cases "only_denoise m")
  case True
  let ?m' = "m\<lparr>state := (state m)\<lparr>denoise_tiles :=
                        (denoise_tiles (state m))[li := f (denoise_tiles (state m) ! li)]\<rparr>\<rparr>"
  have a: "tile_list_apply li f m = Some ?m'" using assms True by (simp add: tile_list_apply_def)
  have b: "same_config m ?m'" unfolding same_config_def
    by (rule exI[of _ "tiles (state m)"], rule exI[of _ "render_tiles (state m)"],
      rule exI[of _ "(denoise_tiles (state m))[li := f (denoise_tiles (state m) ! li)]"]) simp
  have c: "queued ?m' + mset (tile_lists m ! li) = queued m + mset (f (tile_lists m ! li))"
    using assms True mset_concat_update[of li "denoise_tiles (state m)" "f (denoise_tiles (state m) ! li)"]
    by (simp add: queued_def tile_lists_def ac_simps)
  show ?thesis using a b c True by (simp add: tile_lists_def)
next
  case False
  let ?m' = "m\<lparr>state := (state m)\<lparr>render_tiles :=
                        (render_tiles (state m))[li := f (render_tiles (state m) ! li)]\<rparr>\<rparr>"
  have a: "tile_list_apply li f m = Some ?m'" using assms False by (simp add: tile_list_apply_def)
  have b: "same_config m ?m'" unfolding same_config_def
    by (rule exI[of _ "tiles (state m)"],
      rule exI[of _ "(render_tiles (state m))[li := f (render_tiles (state m) ! li)]"],
      rule exI[of _ "denoise_tiles (state m)"]) simp
  have c: "queued ?m' + mset (tile_lists m ! li) = queued m + mset (f (tile_lists m ! li))"
    using assms False mset_concat_update[of li "render_tiles (state m)" "f (render_tiles (state m) ! li)"]
    by (simp add: queued_def tile_lists_def ac_simps)
  show ?thesis using a b c False by (simp add: tile_lists_def)
qed

lemma gen_tiles_tile_inv:
  assumes inv: "gen_inv sliced m li0 per k st"
    and k: "k = ty * tw + tx" "tx < tw"
    and rng: "k < length (tiles (state m))"
    and lrng: "(if sliced then li0 else li0 + k div per) < length (tile_lists m)"
    and per: "1 \<le> per"
  shows "\<exists>st'. gen_tiles_tile sliced slice slice_y slice_h tile_slice_h (int per) image_w (int tw)
                 center (int ty) (int tx) st = Some st'
             \<and> gen_inv sliced m li0 per (Suc k) st'"
proof -
  obtain m' li cd ct where st: "st = (m', li, cd, ct)" by (cases st) auto
  from inv st have sc: "same_config m m'"
    and q: "queued m' = queued m + mset (map int [0..<k])"
    and pos: "if sliced then li = li0 \<and> cd = 0 \<and> ct = 0
              else li = li0 + k div per \<and> cd = int (k div per) \<and> ct = int (k mod per)"
    by (simp_all add: gen_inv_def)
  have idx: "int ty * int tw + int tx = int k" using k by simp
  let ?t = "Tile_new (int k) (int tx * fst (tile_size m'))
              (int ty * snd (tile_size m') + slice_y)
              (if int tx = int tw - 1 then image_w - int tx * fst (tile_size m') else fst (tile_size m'))
              (if int ty = tile_slice_h - 1 then slice_h - int ty * snd (tile_size m')
               else snd (tile_size m'))
              (if sliced then slice else cd)
              (if only_denoise m' then DENOISE else RENDER) (global_buffers (state m'))"
  have r1: "0 \<le> int k" "int k < int (length (tiles (state m')))"
    using rng same_config_fields(14)[OF sc] by simp_all
  obtain m1 where m1: "tile_update (int k) (\<lambda>_. ?t) m' = Some m1" "same_config m' m1"
      "queued m1 = queued m'" "tile_lists m1 = tile_lists m'"
    using tile_update_same[OF r1, of "\<lambda>_. ?t"] by blast
  have li: "li < length (tile_lists m1)"
    using lrng pos m1(4) same_config_fields(17)[OF sc] by (auto split: if_splits)
  obtain m2 where m2: "tile_list_apply li (\<lambda>q. q @ [int k]) m1 = Some m2" "same_config m1 m2"
      "tile_lists m2 = (tile_lists m1)[li := tile_lists m1 ! li @ [int k]]"
      "queued m2 + mset (tile_lists m1 ! li) = queued m1 + mset (tile_lists m1 ! li @ [int k])"
    using tile_list_apply_same[OF li, of "\<lambda>q. q @ [int k]"] by blast
  have q2: "queued m2 = queued m + mset (map int [0..<Suc k])"
    using m2(4) m1(3) q by simp
  have sc2: "same_config m m2"
    using sc m1(2) m2(2) by (blast intro: same_config_trans)
  have li2: "li < length (tile_lists m2)" using li m2(3) by simp
  let ?cmp = "TileComparator (tile_order m2) center (tiles (state m2))"
  obtain m3 where m3: "tile_list_apply li (list_sort ?cmp) m2 = Some m3" "same_config m2 m3"
      "queued m3 + mset (tile_lists m2 ! li) = queued m2 + mset (list_sort ?cmp (tile_lists m2 ! li))"
    using tile_list_apply_same[OF li2, of "list_sort ?cmp"] by blast
  have q3: "queued m3 = queued m + mset (map int [0..<Suc k])"
    using m3(3) q2 by simp
  have sc3: "same_config m m3" using sc2 m3(2) by (blast intro: same_config_trans)
  have unf: "gen_tiles_tile sliced slice slice_y slice_h tile_slice_h (int per) image_w (int tw)
                 center (int ty) (int tx) st =
      (if \<not> sliced then
          (if ct + 1 = int per then
             (if tile_order m2 \<noteq> TILE_BOTTOM_TO_TOP then Some (m3, li + 1, cd + 1, 0)
              else Some (m2, li + 1, cd + 1, 0))
           else Some (m2, li, cd, ct + 1))
        else Some (m2, li, cd, ct))"
    unfolding gen_tiles_tile_def st using m1(1) m2(1) m3(1)
    by (simp add: Let_def idx)
  show ?thesis
  proof (cases sliced)
    case True
    then show ?thesis using unf pos sc2 q2 by (simp add: gen_inv_def)
  next
    case False
    show ?thesis
    proof (cases "ct + 1 = int per")
      case full: True
      then have "Suc (k mod per) = per" using pos False by simp
      then have dm: "Suc k mod per = 0" "Suc k div per = Suc (k div per)"
        by (simp_all add: mod_Suc div_Suc)
      show ?thesis using unf False full pos sc2 sc3 q2 q3 dm
        by (simp add: gen_inv_def)
    next
      case part: False
      then have "Suc (k mod per) \<noteq> per" using pos False by auto
      then have dm: "Suc k mod per = Suc (k mod per)" "Suc k div per = k div per"
        by (simp_all add: mod_Suc div_Suc)
      show ?thesis using unf False part pos sc2 q2 dm
        by (simp add: gen_inv_def)
    qed
  qed
qed

lemma gen_tiles_slice_inv:
  assumes sn: "slice_num \<noteq> 0" and num: "num \<noteq> 0" and tsy: "snd (tile_size m) \<noteq> 0"
    and sh: "slice_h = (if slice = slice_num - 1 then image_h - slice * cdiv image_h slice_num
                        else cdiv image_h slice_num)"
    and tsh: "(if snd (tile_size m) \<ge> slice_h then 1
               else cdiv (slice_h + snd (tile_size m) - 1) (snd (tile_size m))) = int tsh"
    and per: "cdiv (int tw * int tsh + num - 1) num = int per" "1 \<le> per"
    and rng: "tw * tsh \<le> length (tiles (state m))"
    and lrng: "\<And>k. k < tw * tsh \<Longrightarrow>
                 (if sliced then li0 else li0 + k div per) < length (tile_lists m)"
  shows "\<exists>m' li'. gen_tiles_slice sliced slice_num num image_w image_h (int tw) center slice (m, li0)
             = Some (m', li')
           \<and> same_config m m' \<and> queued m' = queued m + mset (map int [0..<tw * tsh])
           \<and> (sliced \<longrightarrow> li' = li0 + 1)"
proof -
  let ?slice_y = "cdiv image_h slice_num * slice"
  let ?body = "\<lambda>tile_y. gen_tiles_tile sliced slice ?slice_y slice_h (int tsh) (int per) image_w
                 (int tw) center tile_y"
  have inner: "\<And>ty st. ty < tsh \<Longrightarrow> gen_inv sliced m li0 per (ty * tw) st \<Longrightarrow>
      \<exists>st'. foldM (?body (int ty)) (range_int (int tw)) st = Some st'
            \<and> gen_inv sliced m li0 per (Suc ty * tw) st'"
  proof -
    fix ty st assume ty: "ty < tsh" and i0: "gen_inv sliced m li0 per (ty * tw) st"
    have "\<exists>st'. foldM (?body (int ty)) (range_int (int tw)) st = Some st'
            \<and> gen_inv sliced m li0 per (ty * tw + tw) st'"
    proof (rule foldM_range[where I = "\<lambda>tx. gen_inv sliced m li0 per (ty * tw + tx)"])
      show "gen_inv sliced m li0 per (ty * tw + 0) st" using i0 by simp
    next
      fix tx s assume tx: "tx < tw" and i: "gen_inv sliced m li0 per (ty * tw + tx) s"
      have "ty * tw + tx < tsh * tw"
      proof -
        have "ty * tw + tx < ty * tw + tw" using tx by simp
        also have "\<dots> = Suc ty * tw" by simp
        also have "\<dots> \<le> tsh * tw" using ty by (intro mult_le_mono1) simp
        finally show ?thesis .
      qed
      then have lt: "ty * tw + tx < tw * tsh" by (simp add: mult.commute)
      from gen_tiles_tile_inv[OF i refl tx _ lrng[OF lt] per(2), of slice ?slice_y slice_h
          "int tsh" image_w center] lt rng
      show "\<exists>s'. ?body (int ty) (int tx) s = Some s'
                \<and> gen_inv sliced m li0 per (ty * tw + Suc tx) s'"
        by simp
    qed
    then show "\<exists>st'. foldM (?body (int ty)) (range_int (int tw)) st = Some st'
            \<and> gen_inv sliced m li0 per (Suc ty * tw) st'"
      by (simp add: add.commute)
  qed
  have outer: "\<exists>st'. foldM (\<lambda>tile_y. foldM (?body tile_y) (range_int (int tw)))
                  (range_int (int tsh)) (m, li0, 0, 0) = Some st'
            \<and> gen_inv sliced m li0 per (tsh * tw) st'"
  proof (rule foldM_range[where I = "\<lambda>ty. gen_inv sliced m li0 per (ty * tw)"])
    show "gen_inv sliced m li0 per (0 * tw) (m, li0, 0, 0)" by (simp add: gen_inv_def)
  next
    fix ty s assume "ty < tsh" "gen_inv sliced m li0 per (ty * tw) s"
    then show "\<exists>s'. foldM (?body (int ty)) (range_int (int tw)) s = Some s'
                 \<and> gen_inv sliced m li0 per (Suc ty * tw) s'"
      by (rule inner)
  qed
  then obtain m' li' cd ct where st': "foldM (\<lambda>tile_y. foldM (?body tile_y) (range_int (int tw)))
                  (range_int (int tsh)) (m, li0, 0, 0) = Some (m', li', cd, ct)"
      "gen_inv sliced m li0 per (tsh * tw) (m', li', cd, ct)"
    by (metis prod_cases4)
  have e1: "(if snd (tile_size m) \<ge> slice_h then Some 1
             else divide_int (slice_h + snd (tile_size m) - 1) (snd (tile_size m))) = Some (int tsh)"
    using tsy tsh by (auto split: if_splits)
  have "gen_tiles_slice sliced slice_num num image_w image_h (int tw) center slice (m, li0)
             = Some (m', if sliced then li' + 1 else li')"
    apply (simp only: gen_tiles_slice_def prod.case divide_int_Some[OF sn] Option.bind.simps Let_def)
    apply (simp only: sh[symmetric])
    apply (simp only: e1 Option.bind.simps divide_int_Some[OF num] per(1) st'(1) prod.case)
    done
  then show ?thesis using st'(2) by (auto simp: gen_inv_def mult.commute)
qed

text \<open>Whenever the loops of \<open>gen_tiles\<close> return, they leave the denoise queues ready.\<close>

lemma foldM_preserves:
  assumes "\<And>x s s'. f x s = Some s' \<Longrightarrow> P s \<Longrightarrow> P s'"
  shows "foldM f xs s = Some s' \<Longrightarrow> P s \<Longrightarrow> P s'"
proof (induction xs arbitrary: s)
  case Nil
  then show ?case by simp
next
  case (Cons x xs)
  then obtain s1 where s1: "f x s = Some s1" "foldM f xs s1 = Some s'"
    by (auto split: option.splits)
  show ?case using Cons.IH[OF s1(2)] assms[OF s1(1) Cons.prems(2)] .
qed

lemma tile_update_SomeD:
  "tile_update i f m = Some m' \<Longrightarrow>
   0 \<le> i \<and> i < int (length (tiles (state m)))
   \<and> m' = m\<lparr>state := (state m)\<lparr>tiles := (tiles (state m))[nat i := f (tiles (state m) ! nat i)]\<rparr>\<rparr>"
  by (simp add: tile_update_def split: if_splits)

lemma tile_at_SomeD:
  "tile_at m i = Some t \<Longrightarrow>
   0 \<le> i \<and> i < int (length (tiles (state m))) \<and> t = tiles (state m) ! nat i"
  by (auto simp add: tile_at_def split: if_splits)

lemma set_concat_update: "set (concat (xs[i := ys])) \<subseteq> set (concat xs) \<union> set ys"
proof (induction xs arbitrary: i)
  case Nil
  then show ?case by simp
next
  case (Cons a xs)
  show ?case
  proof (cases i)
    case 0
    then show ?thesis by auto
  next
    case (Suc k)
    then show ?thesis using Cons.IH[of k] by auto
  qed
qed

lemma tile_list_apply_SomeD:
  "tile_list_apply li f m = Some m' \<Longrightarrow>
   li < length (tile_lists m)
   \<and> m' = (if only_denoise m
           then m\<lparr>state := (state m)\<lparr>denoise_tiles :=
                  (denoise_tiles (state m))[li := f (denoise_tiles (state m) ! li)]\<rparr>\<rparr>
           else m\<lparr>state := (state m)\<lparr>render_tiles :=
                  (render_tiles (state m))[li := f (render_tiles (state m) ! li)]\<rparr>\<rparr>)"
  by (simp add: tile_list_apply_def split: if_splits)

lemma tile_update_gen_ready:
  assumes u: "tile_update idx (\<lambda>_. t) m = Some m1" and g: "gen_ready m"
    and s: "only_denoise m \<Longrightarrow> t_state t = DENOISE"
  shows "gen_ready m1" "only_denoise m1 = only_denoise m"
    "0 \<le> idx" "idx < int (length (tiles (state m1)))"
    "only_denoise m \<Longrightarrow> t_state (tiles (state m1) ! nat idx) = DENOISE"
proof -
  from tile_update_SomeD[OF u] have i: "0 \<le> idx" "idx < int (length (tiles (state m)))"
    and m1: "m1 = m\<lparr>state := (state m)\<lparr>tiles := (tiles (state m))[nat idx := t]\<rparr>\<rparr>"
    by simp_all
  show "only_denoise m1 = only_denoise m" by (simp add: m1)
  show "0 \<le> idx" "idx < int (length (tiles (state m1)))" using i by (simp_all add: m1)
  show "only_denoise m \<Longrightarrow> t_state (tiles (state m1) ! nat idx) = DENOISE"
    using i s by (simp add: m1)
  show "gen_ready m1"
  proof (cases "only_denoise m")
    case False
    then show ?thesis using g by (simp add: gen_ready_def m1)
  next
    case True
    have "\<And>j. j \<in> set (concat (denoise_tiles (state m))) \<Longrightarrow>
        0 \<le> j \<and> j < int (length (tiles (state m)))
        \<and> t_state ((tiles (state m))[nat idx := t] ! nat j) = DENOISE"
    proof -
      fix j assume "j \<in> set (concat (denoise_tiles (state m)))"
      then have r: "0 \<le> j" "j < int (length (tiles (state m)))"
          "t_state (tiles (state m) ! nat j) = DENOISE"
        using g True unfolding gen_ready_def by auto
      show "0 \<le> j \<and> j < int (length (tiles (state m)))
        \<and> t_state ((tiles (state m))[nat idx := t] ! nat j) = DENOISE"
        using r s[OF True] by (cases "nat j = nat idx") simp_all
    qed
    then show ?thesis using True by (simp add: gen_ready_def m1)
  qed
qed

lemma tile_list_apply_gen_ready:
  assumes a: "tile_list_apply li f m = Some m'" and g: "gen_ready m"
    and f: "set (f (tile_lists m ! li)) \<subseteq> insert idx (set (tile_lists m ! li))"
    and ok: "only_denoise m \<Longrightarrow> 0 \<le> idx \<and> idx < int (length (tiles (state m)))
               \<and> t_state (tiles (state m) ! nat idx) = DENOISE"
  shows "gen_ready m'" "only_denoise m' = only_denoise m" "tiles (state m') = tiles (state m)"
    "tile_lists m' ! li = f (tile_lists m ! li)"
proof -
  note d = tile_list_apply_SomeD[OF a]
  show "only_denoise m' = only_denoise m" using d by (simp split: if_splits)
  show "tiles (state m') = tiles (state m)" using d by (simp split: if_splits)
  show "tile_lists m' ! li = f (tile_lists m ! li)"
    using d by (auto simp: tile_lists_def split: if_splits)
  show "gen_ready m'"
  proof (cases "only_denoise m")
    case False
    then show ?thesis using g d by (simp add: gen_ready_def)
  next
    case True
    then have m': "m' = m\<lparr>state := (state m)\<lparr>denoise_tiles :=
                  (denoise_tiles (state m))[li := f (denoise_tiles (state m) ! li)]\<rparr>\<rparr>"
      and li: "li < length (denoise_tiles (state m))"
      using d by (simp_all add: tile_lists_def)
    have "denoise_tiles (state m) ! li \<in> set (denoise_tiles (state m))" using li by simp
    then have "set (denoise_tiles (state m) ! li) \<subseteq> set (concat (denoise_tiles (state m)))"
      by auto
    then have "set (concat (denoise_tiles (state m'))) \<subseteq>
        insert idx (set (concat (denoise_tiles (state m))))"
      using set_concat_update[of "denoise_tiles (state m)" li "f (denoise_tiles (state m) ! li)"]
        f True by (auto simp: m' tile_lists_def)
    then show ?thesis using g ok[OF True] True unfolding gen_ready_def by (auto simp: m')
  qed
qed

lemma set_list_sort [simp]: "set (list_sort cmp xs) = set xs"
  using mset_list_sort[of cmp xs] by (metis mset_eq_setD)

lemma gen_tiles_tile_gen_ready:
  assumes r: "gen_tiles_tile sliced slice slice_y slice_h tile_slice_h per image_w tile_w center
                tile_y tile_x st = Some st'"
    and g: "gen_ready (fst st)"
  shows "gen_ready (fst st')"
proof -
  obtain m li cd ct where st: "st = (m, li, cd, ct)" by (cases st) auto
  let ?idx = "tile_y * tile_w + tile_x"
  let ?t = "Tile_new ?idx (tile_x * fst (tile_size m)) (tile_y * snd (tile_size m) + slice_y)
              (if tile_x = tile_w - 1 then image_w - tile_x * fst (tile_size m)
               else fst (tile_size m))
              (if tile_y = tile_slice_h - 1 then slice_h - tile_y * snd (tile_size m)
               else snd (tile_size m))
              (if sliced then slice else cd)
              (if only_denoise m then DENOISE else RENDER) (global_buffers (state m))"
  from r[unfolded gen_tiles_tile_def st prod.case Let_def bind_eq_Some_conv]
  obtain m1 m2 where m1: "tile_update ?idx (\<lambda>_. ?t) m = Some m1"
    and m2: "tile_list_apply li (\<lambda>q. q @ [?idx]) m1 = Some m2"
    and rest: "(if \<not> sliced then
          (if ct + 1 = per then
             (if tile_order m2 \<noteq> TILE_BOTTOM_TO_TOP
              then tile_list_apply li
                     (list_sort (TileComparator (tile_order m2) center (tiles (state m2)))) m2
              else Some m2) \<bind> (\<lambda>m3. Some (m3, li + 1, cd + 1, 0))
           else Some (m2, li, cd, ct + 1))
        else Some (m2, li, cd, ct)) = Some st'"
    by blast
  from rest have m3: "fst st' = m2 \<or> (\<exists>cmp. tile_list_apply li (list_sort cmp) m2 = Some (fst st'))"
    by (auto simp: bind_eq_Some_conv split: if_splits)
  have g0: "gen_ready m" using g st by simp
  have s: "only_denoise m \<Longrightarrow> t_state ?t = DENOISE" by (simp add: Tile_new_def)
  note u = tile_update_gen_ready[OF m1 g0 s]
  have g1: "gen_ready m1" using u(1) by simp
  have ok1: "only_denoise m1 \<Longrightarrow> 0 \<le> ?idx \<and> ?idx < int (length (tiles (state m1)))
               \<and> t_state (tiles (state m1) ! nat ?idx) = DENOISE"
    using u(2-5) by simp
  have app: "set (tile_lists m1 ! li @ [?idx]) \<subseteq> insert ?idx (set (tile_lists m1 ! li))"
    by auto
  note a = tile_list_apply_gen_ready[OF m2 g1 app ok1]
  have g2: "gen_ready m2" using a(1) .
  have ok2: "only_denoise m2 \<Longrightarrow> 0 \<le> ?idx \<and> ?idx < int (length (tiles (state m2)))
               \<and> t_state (tiles (state m2) ! nat ?idx) = DENOISE"
    using ok1 a(2,3) by simp
  from m3 show ?thesis
  proof
    assume "fst st' = m2"
    then show ?thesis using g2 by simp
  next
    assume "\<exists>cmp. tile_list_apply li (list_sort cmp) m2 = Some (fst st')"
    then obtain cmp where c: "tile_list_apply li (list_sort cmp) m2 = Some (fst st')" by blast
    have srt: "set (list_sort cmp (tile_lists m2 ! li)) \<subseteq> insert ?idx (set (tile_lists m2 ! li))"
      by auto
    show ?thesis using tile_list_apply_gen_ready(1)[OF c g2 srt ok2] .
  qed
qed

lemma gen_tiles_slice_gen_ready:
  assumes r: "gen_tiles_slice sliced slice_num num image_w image_h tile_w center slice st = Some st'"
    and g: "gen_ready (fst st)"
  shows "gen_ready (fst st')"
proof -
  obtain m li where st: "st = (m, li)" by (cases st) auto
  from r obtain slice_y slice_h tile_slice_h per s' where
    f: "foldM (\<lambda>tile_y. foldM (gen_tiles_tile sliced slice slice_y slice_h tile_slice_h per
                           image_w tile_w center tile_y) (range_int tile_w))
          (range_int tile_slice_h) (m, li, 0, 0) = Some s'" and s': "fst st' = fst s'"
    unfolding gen_tiles_slice_def st Let_def
    by (auto simp: bind_eq_Some_conv split: if_splits prod.splits)
  have "gen_ready (fst s')"
  proof (rule foldM_preserves[where P = "\<lambda>s. gen_ready (fst s)"
        and f = "\<lambda>tile_y. foldM (gen_tiles_tile sliced slice slice_y slice_h tile_slice_h per
                           image_w tile_w center tile_y) (range_int tile_w)", OF _ f])
    show "gen_ready (fst (m, li, 0::int, 0::int))" using g st by simp
  next
    fix tile_y s s2
    assume a: "foldM (gen_tiles_tile sliced slice slice_y slice_h tile_slice_h per
        image_w tile_w center tile_y) (range_int tile_w) s = Some s2" and b: "gen_ready (fst s)"
    show "gen_ready (fst s2)"
    proof (rule foldM_preserves[where P = "\<lambda>s. gen_ready (fst s)"
          and f = "gen_tiles_tile sliced slice slice_y slice_h tile_slice_h per
                     image_w tile_w center tile_y", OF _ a b])
      fix tile_x s3 s4
      assume "gen_tiles_tile sliced slice slice_y slice_h tile_slice_h per image_w tile_w center
          tile_y tile_x s3 = Some s4" "gen_ready (fst s3)"
      then show "gen_ready (fst s4)" by (rule gen_tiles_tile_gen_ready)
    qed
  qed
  then show ?thesis using s' by simp
qed

lemma concat_empty_lists [simp]: "concat (map (\<lambda>_. []) xs) = []"
  by (induction xs) simp_all

lemma tiles_across_eq:
  "1 \<le> sz \<Longrightarrow> 1 \<le> img \<Longrightarrow>
   tiles_across sz img = (if sz \<ge> img then 1 else (img + sz - 1) div sz)"
  by (simp add: tiles_across_def cdiv_nonneg)

lemma div_ge_one: "1 \<le> (n::int) \<Longrightarrow> n \<le> t \<Longrightarrow> 1 \<le> t div n"
  using pos_imp_zdiv_pos_iff[of n t] by simp

lemma tiles_across_pos: "1 \<le> sz \<Longrightarrow> 1 \<le> img \<Longrightarrow> 1 \<le> tiles_across sz img"
  by (simp add: tiles_across_eq div_ge_one)

lemma tiles_across_mono:
  assumes "1 \<le> sz" "1 \<le> a" "a \<le> b"
  shows "tiles_across sz a \<le> tiles_across sz b"
proof (cases "sz \<ge> a")
  case True
  then show ?thesis using assms tiles_across_pos[of sz b] by (simp add: tiles_across_eq)
next
  case False
  then have "(a + sz - 1) div sz \<le> (b + sz - 1) div sz"
    using assms by (intro zdiv_mono1) simp_all
  then show ?thesis using False assms by (simp add: tiles_across_eq)
qed

lemma tiles_across_option:
  "sz \<noteq> 0 \<Longrightarrow>
   (if sz \<ge> img then Some 1 else divide_int (img + sz - 1) sz) = Some (tiles_across sz img)"
  by (simp add: tiles_across_def)

lemma ceil_div_covers:
  assumes "1 \<le> (t::int)" "1 \<le> n"
  shows "1 \<le> cdiv (t + n - 1) n" "t \<le> n * cdiv (t + n - 1) n"
proof -
  have e: "cdiv (t + n - 1) n = (t + n - 1) div n" using assms by (simp add: cdiv_nonneg)
  show "1 \<le> cdiv (t + n - 1) n" unfolding e using assms by (simp add: div_ge_one)
  have "t + n - 1 = n * ((t + n - 1) div n) + (t + n - 1) mod n" by simp
  moreover have "(t + n - 1) mod n \<le> n - 1" using assms by (smt (verit) pos_mod_bound)
  ultimately show "t \<le> n * cdiv (t + n - 1) n" unfolding e by linarith
qed

lemma slice_height_bounds:
  assumes "1 \<le> slice_num" "slice_num \<le> image_h" "0 \<le> slice" "slice < slice_num"
  defines "q \<equiv> cdiv image_h slice_num"
  defines "slice_h \<equiv> (if slice = slice_num - 1 then image_h - slice * q else q)"
  shows "1 \<le> slice_h" "slice_h \<le> image_h"
proof -
  have q: "q = image_h div slice_num" using assms by (simp add: cdiv_nonneg)
  have q1: "1 \<le> q" unfolding q using assms by (simp add: div_ge_one)
  have "slice_num * q + image_h mod slice_num = image_h" unfolding q by simp
  moreover have "0 \<le> image_h mod slice_num" using assms by simp
  ultimately have "slice_num * q \<le> image_h" by linarith
  then have a: "(slice_num - 1) * q \<le> image_h - q" by (simp add: algebra_simps)
  have b: "0 \<le> (slice_num - 1) * q" using assms q1 by simp
  have c: "q \<le> image_h" using a b by linarith
  show "1 \<le> slice_h" using a q1 c by (simp add: slice_h_def)
  show "slice_h \<le> image_h" using b c by (simp add: slice_h_def)
qed

lemma gen_tiles_returns:
  assumes wc: "well_configured m" and ord: "tile_order m \<noteq> TILE_HILBERT_SPIRAL"
  defines "image_w \<equiv> max 1 (cdiv (width (params m)) (resolution_divider (state m)))"
      and "image_h \<equiv> max 1 (cdiv (height (params m)) (resolution_divider (state m)))"
  defines "tile_w \<equiv> tiles_across (fst (tile_size m)) image_w"
      and "tile_h \<equiv> tiles_across (snd (tile_size m)) image_h"
  defines "num \<equiv> min image_h (if preserve_tile_device m then num_devices m else 1)"
  shows "\<exists>m'. gen_tiles uninit sliced m = Some (tile_w * tile_h, m') \<and> gen_frame m m'
       \<and> length (tiles (state m')) = nat (tile_w * tile_h)
       \<and> length (render_tiles (state m')) = nat num
       \<and> length (denoise_tiles (state m')) = nat num
       \<and> tile_stride (state m') = tile_w \<and> gen_ready m'
       \<and> ((if sliced then num else 1) = 1
            \<longrightarrow> queued m' = mset (map int [0..<nat (tile_w * tile_h)]))"
proof -
  let ?res = "resolution_divider (state m)"
  let ?tsx = "fst (tile_size m)" and ?tsy = "snd (tile_size m)"
  from wc have res: "?res \<noteq> 0" and tsx: "1 \<le> ?tsx" and tsy: "1 \<le> ?tsy"
    and nd: "preserve_tile_device m \<Longrightarrow> 1 \<le> num_devices m"
    by (auto simp: well_configured_def split: if_splits)
  have iw: "1 \<le> image_w" and ih: "1 \<le> image_h" by (simp_all add: image_w_def image_h_def)
  have tw1: "1 \<le> tile_w" and th1: "1 \<le> tile_h"
    using tiles_across_pos tsx tsy iw ih by (simp_all add: tile_w_def tile_h_def)
  have num1: "1 \<le> num" using ih nd by (auto simp: num_def)
  have numh: "num \<le> image_h" by (simp add: num_def)
  define slice_num where "slice_num = (if sliced then num else 1)"
  have sn1: "1 \<le> slice_num" and snh: "slice_num \<le> image_h" and snn: "slice_num \<le> num"
    using num1 numh ih by (simp_all add: slice_num_def)
  define tw where "tw = nat tile_w"
  define th where "th = nat tile_h"
  have twi: "int tw = tile_w" and thi: "int th = tile_h" using tw1 th1 by (simp_all add: tw_def th_def)
  have T: "nat (tile_w * tile_h) = tw * th" using tw1 th1 by (simp add: tw_def th_def nat_mult_distrib)
  have T0: "0 \<le> tile_w * tile_h" using tw1 th1 by simp
  define center where "center = (cdiv image_w 2, cdiv image_h 2)"
  define mr where "mr = m\<lparr>state := (state m)\<lparr>tiles := map uninit [0..<nat (tile_w * tile_h)],
      render_tiles := map (\<lambda>_. []) [0..<nat num], denoise_tiles := map (\<lambda>_. []) [0..<nat num],
      tile_stride := tile_w\<rparr>\<rparr>"
  have mr_len: "length (tiles (state mr)) = tw * th" "length (tile_lists mr) = nat num"
    "length (render_tiles (state mr)) = nat num" "length (denoise_tiles (state mr)) = nat num"
    using T by (simp_all add: mr_def tile_lists_def)
  have mr_q: "queued mr = {#}" by (simp add: mr_def queued_def)
  have mr_ts: "tile_size mr = tile_size m" "tile_order mr = tile_order m" by (simp_all add: mr_def)
  have ts0: "?tsx \<noteq> 0" "?tsy \<noteq> 0" using tsx tsy by simp_all
  have unf: "gen_tiles uninit sliced m =
      foldM (gen_tiles_slice sliced slice_num num image_w image_h tile_w center)
               (range_int slice_num) (mr, 0) \<bind> (\<lambda>st. Some (tile_w * tile_h, fst st))"
    unfolding gen_tiles_def
    apply (simp only: Let_def divide_int_Some[OF res] Option.bind.simps)
    apply (fold image_w_def image_h_def)
    apply (simp only: tiles_across_option[OF ts0(1)] tiles_across_option[OF ts0(2)]
        Option.bind.simps)
    using tsx tsy T0 num1 ord
    apply (simp add: tile_w_def[symmetric] tile_h_def[symmetric] vector_resize_def
        num_def[symmetric] slice_num_def center_def[symmetric] mr_def[symmetric])
    done
  define J where "J = (\<lambda>s (st :: TileManager \<times> nat). case st of (m', li) \<Rightarrow>
      same_config mr m' \<and> (sliced \<longrightarrow> li = s) \<and> (s = 0 \<longrightarrow> li = 0)
      \<and> (slice_num = 1 \<longrightarrow> queued m' = (if s = 0 then {#} else mset (map int [0..<tw * th]))))"
  have loop: "\<exists>st'. foldM (gen_tiles_slice sliced slice_num num image_w image_h tile_w center)
               (range_int (int (nat slice_num))) (mr, 0) = Some st' \<and> J (nat slice_num) st'"
  proof (rule foldM_range[where I = J])
    show "J 0 (mr, 0)" by (simp add: J_def mr_q)
  next
    fix s st assume s: "s < nat slice_num" and Js: "J s st"
    obtain m' li where st: "st = (m', li)" by (cases st) auto
    from Js st have sc: "same_config mr m'" and li: "sliced \<Longrightarrow> li = s" "s = 0 \<Longrightarrow> li = 0"
      and q: "slice_num = 1 \<Longrightarrow> queued m' = (if s = 0 then {#} else mset (map int [0..<tw * th]))"
      by (simp_all add: J_def)
    have ts': "tile_size m' = tile_size m" using same_config_fields(2)[OF sc] mr_ts by simp
    define slice_h where "slice_h = (if int s = slice_num - 1
        then image_h - int s * cdiv image_h slice_num else cdiv image_h slice_num)"
    have shb: "1 \<le> slice_h" "slice_h \<le> image_h"
      using slice_height_bounds[OF sn1 snh, of "int s"] s by (simp_all add: slice_h_def)
    define tsh where "tsh = nat (tiles_across ?tsy slice_h)"
    have tsh1: "1 \<le> tiles_across ?tsy slice_h" using tiles_across_pos tsy shb by simp
    have tshi: "int tsh = tiles_across ?tsy slice_h" using tsh1 by (simp add: tsh_def)
    have tshle: "tsh \<le> th"
      using tiles_across_mono[OF tsy shb] by (simp add: tsh_def th_def tile_h_def nat_mono)
    define per where "per = nat (cdiv (int tw * int tsh + num - 1) num)"
    have tt1: "1 \<le> int tw * int tsh" using tw1 tsh1 twi tshi by (smt (verit) mult_le_cancel_left1)
    have per1: "1 \<le> cdiv (int tw * int tsh + num - 1) num"
      and cov: "int tw * int tsh \<le> num * cdiv (int tw * int tsh + num - 1) num"
      using ceil_div_covers[OF tt1 num1] by simp_all
    have peri: "int per = cdiv (int tw * int tsh + num - 1) num" using per1 by (simp add: per_def)
    have per1': "1 \<le> per" using per1 by (simp add: per_def)
    have cov': "tw * tsh \<le> nat num * per"
    proof -
      have "int (tw * tsh) \<le> int (nat num * per)" using cov peri num1 by simp
      then show ?thesis by (simp only: of_nat_le_iff)
    qed
    have a3: "snd (tile_size m') \<noteq> 0" using ts' tsy by simp
    have a5: "(if snd (tile_size m') \<ge> slice_h then 1
               else cdiv (slice_h + snd (tile_size m') - 1) (snd (tile_size m'))) = int tsh"
      using tshi by (simp add: ts' tiles_across_def)
    have a8: "tw * tsh \<le> length (tiles (state m'))"
      using same_config_fields(14)[OF sc] mr_len(1) tshle by simp
    have a9: "\<And>k. k < tw * tsh \<Longrightarrow>
                 (if sliced then li else li + k div per) < length (tile_lists m')"
    proof -
      fix k assume k: "k < tw * tsh"
      have len: "length (tile_lists m') = nat num"
        using same_config_fields(17)[OF sc] mr_len(2) by simp
      show "(if sliced then li else li + k div per) < length (tile_lists m')"
      proof (cases sliced)
        case True
        then show ?thesis using li(1) s snn len by simp
      next
        case False
        then have "slice_num = 1" by (simp add: slice_num_def)
        then have "s = 0" using s by simp
        moreover have "k < nat num * per" using k cov' by simp
        then have "k div per < nat num" by (simp add: less_mult_imp_div_less)
        ultimately show ?thesis using False li(2) len by simp
      qed
    qed
    from gen_tiles_slice_inv[of slice_num num m' slice_h "int s" image_h tsh tw per sliced li
        image_w center, OF _ _ a3 slice_h_def a5 peri[symmetric] per1' a8 a9] sn1 num1
    obtain m2 li2 where r: "gen_tiles_slice sliced slice_num num image_w image_h (int tw) center
          (int s) (m', li) = Some (m2, li2)" "same_config m' m2"
        "queued m2 = queued m' + mset (map int [0..<tw * tsh])" "sliced \<longrightarrow> li2 = li + 1"
      by auto
    have "J (Suc s) (m2, li2)"
    proof -
      have "same_config mr m2" using sc r(2) by (rule same_config_trans)
      moreover have "sliced \<longrightarrow> li2 = Suc s" using r(4) li(1) by simp
      moreover have "slice_num = 1 \<longrightarrow> queued m2 = mset (map int [0..<tw * th])"
      proof
        assume one: "slice_num = 1"
        then have "s = 0" using s by simp
        then have "slice_h = image_h" using one by (simp add: slice_h_def)
        then have "tsh = th" by (simp add: tsh_def th_def tile_h_def)
        then show "queued m2 = mset (map int [0..<tw * th])" using r(3) q[OF one] \<open>s = 0\<close> by simp
      qed
      ultimately show ?thesis by (simp add: J_def)
    qed
    then show "\<exists>s'. gen_tiles_slice sliced slice_num num image_w image_h tile_w center (int s) st
                  = Some s' \<and> J (Suc s) s'"
      using r(1) st twi by auto
  qed
  then obtain m' li where fin: "foldM (gen_tiles_slice sliced slice_num num image_w image_h tile_w
      center) (range_int slice_num) (mr, 0) = Some (m', li)" "J (nat slice_num) (m', li)"
    using sn1 by auto
  from fin(2) have sc: "same_config mr m'"
    and q: "slice_num = 1 \<longrightarrow> queued m' = mset (map int [0..<tw * th])"
    by (auto simp: J_def)
  have res: "gen_tiles uninit sliced m = Some (tile_w * tile_h, m')" using unf fin(1) by simp
  have frame: "gen_frame m m'"
  proof -
    from sc obtain ts rt dt where "m' = mr\<lparr>state := (state mr)\<lparr>tiles := ts, render_tiles := rt,
        denoise_tiles := dt\<rparr>\<rparr>" unfolding same_config_def by blast
    then have "m' = m\<lparr>state := (state m)\<lparr>tiles := ts, render_tiles := rt,
        denoise_tiles := dt, tile_stride := tile_w, num_tiles := num_tiles (state m),
        buffer := buffer (state m)\<rparr>\<rparr>" by (simp add: mr_def)
    then show ?thesis unfolding gen_frame_def by blast
  qed
  have "gen_ready (fst (m', li))"
  proof (rule foldM_preserves[where P = "\<lambda>s. gen_ready (fst s)"
        and f = "gen_tiles_slice sliced slice_num num image_w image_h tile_w center", OF _ fin(1)])
    fix x s s'
    assume "gen_tiles_slice sliced slice_num num image_w image_h tile_w center x s = Some s'"
      "gen_ready (fst s)"
    then show "gen_ready (fst s')" by (rule gen_tiles_slice_gen_ready)
  qed (simp add: gen_ready_def mr_def)
  then have gr: "gen_ready m'" by (simp only: fst_conv)
  have "tile_stride (state m') = tile_w" using same_config_fields(22)[OF sc] by (simp add: mr_def)
  then show ?thesis
    using res frame same_config_fields(14,15,16)[OF sc] mr_len q T gr
    by (simp add: slice_num_def)
qed

section \<open>The Hilbert spiral\<close>

text \<open>The walk from block to block: each step leaves one more block behind, and stays
  on the spiral or reaches the centre.\<close>

lemma ring_base_step: "ring_base n (i - 1) + 4 * (n - 1 - 2 * (i - 1)) = ring_base n i"
  by (simp add: ring_base_def algebra_simps)

lemma key_up:
  assumes "odd n" "0 \<le> i" "i \<le> y" "y \<le> n - 1 - i"
  shows "block_key n (i, y) = ring_base n i + (y - i)"
  using assms by (simp add: block_key_def block_ring_def Let_def min_def)

lemma key_left:
  assumes "odd n" "0 \<le> i" "i \<le> x" "x \<le> n - 1 - i"
  shows "block_key n (x, n - 1 - i) = ring_base n i + (n - 1 - 2 * i) + (x - i)"
  using assms by (auto simp add: block_key_def block_ring_def Let_def min_def)

lemma key_down:
  assumes "odd n" "0 \<le> i" "i \<le> y" "y \<le> n - 1 - i" "2 * i < n - 1"
  shows "block_key n (n - 1 - i, y) = ring_base n i + 2 * (n - 1 - 2 * i) + (n - 1 - i - y)"
  using assms by (auto simp add: block_key_def block_ring_def Let_def min_def)

lemma key_right:
  assumes "odd n" "0 \<le> i" "i + 1 \<le> x" "x \<le> n - 1 - i"
  shows "block_key n (x, i) = ring_base n i + 3 * (n - 1 - 2 * i) + (n - 1 - i - x)"
  using assms by (auto simp add: block_key_def block_ring_def Let_def min_def)

lemma spiral_key:
  assumes n: "odd n" and ok: "spiral_ok n i (x, y) dir"
  shows "block_key n (x, y) = ring_base n i + spiral_offset n i (x, y) dir"
proof (cases dir)
  case DIRECTION_UP
  with ok have s: "0 \<le> i" "x = i" "i - 1 \<le> y" "0 \<le> y" "y \<le> n - i - 2"
    by (simp_all add: spiral_ok_def)
  have "block_key n (i, y) = ring_base n i + (y - i)"
  proof (cases "i \<le> y")
    case True
    then show ?thesis using key_up[OF n s(1), of y] s by simp
  next
    case False
    then have e: "y = i - 1" "1 \<le> i" using s by simp_all
    have "block_key n (i, i - 1) = ring_base n (i - 1) + 3 * (n - 1 - 2 * (i - 1))
        + (n - 1 - (i - 1) - i)"
      using key_right[OF n, of "i - 1" i] e s by simp
    then show ?thesis using ring_base_step[of n i] e by simp
  qed
  then show ?thesis using DIRECTION_UP s by (simp add: spiral_offset_def)
next
  case DIRECTION_LEFT
  with ok have s: "0 \<le> i" "y = n - i - 1" "i \<le> x" "x \<le> n - i - 2"
    by (simp_all add: spiral_ok_def)
  have y: "y = n - 1 - i" using s by simp
  show ?thesis using key_left[OF n s(1), of x] s(3,4) DIRECTION_LEFT unfolding y
    by (simp add: spiral_offset_def)
next
  case DIRECTION_DOWN
  with ok have s: "0 \<le> i" "x = n - i - 1" "i + 1 \<le> y" "y \<le> n - i - 1"
    by (simp_all add: spiral_ok_def)
  have lt: "2 * i < n - 1" using s by simp
  have x: "x = n - 1 - i" using s by simp
  show ?thesis using key_down[OF n s(1) _ _ lt, of y] s(3,4) DIRECTION_DOWN unfolding x
    by (simp add: spiral_offset_def)
next
  case DIRECTION_RIGHT
  with ok have s: "0 \<le> i" "y = i" "i + 2 \<le> x" "x \<le> n - i - 1"
    by (simp_all add: spiral_ok_def)
  show ?thesis using key_right[OF n s(1), of x] s DIRECTION_RIGHT
    by (simp add: spiral_offset_def)
qed

lemma key_center:
  assumes "odd n" "1 \<le> n"
  shows "block_key n ((n - 1) div 2, (n - 1) div 2) = n * n - 1"
proof -
  obtain k where k: "n = 2 * k + 1" using assms(1) by (elim oddE)
  have "0 \<le> k" using assms(2) k by simp
  then show ?thesis unfolding k
    by (simp add: block_key_def block_ring_def Let_def ring_base_def algebra_simps)
qed

lemma spiral_key_bound:
  assumes n: "odd n" and ok: "spiral_ok n i (x, y) dir"
  shows "block_key n (x, y) \<le> n * n - 1"
proof -
  define e where "e = n - 1 - 2 * i"
  have id: "ring_base n i + (e * e + 2 * e) = n * n - 1"
    by (simp add: ring_base_def e_def algebra_simps)
  have off: "spiral_offset n i (x, y) dir \<le> e * e + 2 * e"
  proof (cases dir)
    case DIRECTION_UP
    with ok have "spiral_offset n i (x, y) dir \<le> e - 1" "0 \<le> e"
      by (simp_all add: spiral_ok_def spiral_offset_def e_def)
    moreover have "0 \<le> e * e" by simp
    ultimately show ?thesis by linarith
  next
    case DIRECTION_LEFT
    with ok have "spiral_offset n i (x, y) dir \<le> 4 * e - 2" "1 \<le> e"
      by (simp_all add: spiral_ok_def spiral_offset_def e_def)
    moreover have "0 \<le> (e - 1) * (e - 1)" by simp
    then have "2 * e - 1 \<le> e * e" by (simp add: algebra_simps)
    ultimately show ?thesis by linarith
  next
    case DIRECTION_DOWN
    with ok have "spiral_offset n i (x, y) dir \<le> 4 * e - 2" "1 \<le> e"
      by (simp_all add: spiral_ok_def spiral_offset_def e_def)
    moreover have "0 \<le> (e - 1) * (e - 1)" by simp
    then have "2 * e - 1 \<le> e * e" by (simp add: algebra_simps)
    ultimately show ?thesis by linarith
  next
    case DIRECTION_RIGHT
    with ok have "spiral_offset n i (x, y) dir \<le> 4 * e - 2" "1 \<le> e"
      by (simp_all add: spiral_ok_def spiral_offset_def e_def)
    moreover have "0 \<le> (e - 1) * (e - 1)" by simp
    then have "2 * e - 1 \<le> e * e" by (simp add: algebra_simps)
    ultimately show ?thesis by linarith
  qed
  show ?thesis using spiral_key[OF n ok] id off by linarith
qed

lemma spiral_step:
  assumes n: "odd n" and ok: "spiral_ok n i (x, y) dir"
  shows "(case spiral_advance n i (x, y) dir of (i', b', dir') \<Rightarrow>
           (b' = ((n - 1) div 2, (n - 1) div 2) \<or> spiral_ok n i' b' dir')
           \<and> block_key n b' = block_key n (x, y) + 1)"
proof (cases dir)
  case DIRECTION_UP
  with ok have s: "0 \<le> i" "x = i" "i - 1 \<le> y" "0 \<le> y" "y \<le> n - i - 2"
    by (simp_all add: spiral_ok_def)
  have k: "block_key n (i, y) = ring_base n i + (y - i)"
    using spiral_key[OF n ok] DIRECTION_UP s by (simp add: spiral_offset_def)
  have k': "block_key n (i, y + 1) = ring_base n i + (y + 1 - i)"
    using key_up[OF n s(1), of "y + 1"] s by simp
  have c: "y + 1 = n - i - 1 \<Longrightarrow> \<not> i \<le> n - i - 2 \<Longrightarrow> i = (n - 1) div 2"
    using s n by presburger
  have c2: "y + 1 = n - i - 1 \<Longrightarrow> \<not> i \<le> n - i - 2 \<Longrightarrow> y + 1 = (n - 1) div 2"
    using s n by presburger
  show ?thesis using DIRECTION_UP s k k' c c2
    by (auto simp add: spiral_advance_def spiral_ok_def)
next
  case DIRECTION_LEFT
  with ok have s: "0 \<le> i" "y = n - i - 1" "i \<le> x" "x \<le> n - i - 2"
    by (simp_all add: spiral_ok_def)
  have y: "y = n - 1 - i" using s by simp
  have k: "block_key n (x, n - 1 - i) = ring_base n i + (n - 1 - 2 * i) + (x - i)"
    using spiral_key[OF n ok] DIRECTION_LEFT unfolding y by (simp add: spiral_offset_def)
  have k': "block_key n (x + 1, n - 1 - i) = ring_base n i + (n - 1 - 2 * i) + (x + 1 - i)"
    using key_left[OF n s(1), of "x + 1"] s by simp
  show ?thesis using DIRECTION_LEFT s(1,3,4) k k' unfolding y
    by (auto simp add: spiral_advance_def spiral_ok_def)
next
  case DIRECTION_DOWN
  with ok have s: "0 \<le> i" "x = n - i - 1" "i + 1 \<le> y" "y \<le> n - i - 1"
    by (simp_all add: spiral_ok_def)
  have lt: "2 * i < n - 1" using s by simp
  have x: "x = n - 1 - i" using s by simp
  have k: "block_key n (n - 1 - i, y) = ring_base n i + 2 * (n - 1 - 2 * i) + (n - 1 - i - y)"
    using spiral_key[OF n ok] DIRECTION_DOWN unfolding x by (simp add: spiral_offset_def)
  have k': "block_key n (n - 1 - i, y - 1)
      = ring_base n i + 2 * (n - 1 - 2 * i) + (n - 1 - i - (y - 1))"
    using key_down[OF n s(1) _ _ lt, of "y - 1"] s by simp
  have c: "i + 2 \<le> n - i - 1" using lt n by presburger
  show ?thesis using DIRECTION_DOWN s(1,3,4) k k' c unfolding x
    by (auto simp add: spiral_advance_def spiral_ok_def)
next
  case DIRECTION_RIGHT
  with ok have s: "0 \<le> i" "y = i" "i + 2 \<le> x" "x \<le> n - i - 1"
    by (simp_all add: spiral_ok_def)
  have k: "block_key n (x, i) = ring_base n i + 3 * (n - 1 - 2 * i) + (n - 1 - i - x)"
    using spiral_key[OF n ok] DIRECTION_RIGHT s by (simp add: spiral_offset_def)
  have k': "block_key n (x - 1, i) = ring_base n i + 3 * (n - 1 - 2 * i) + (n - 1 - i - (x - 1))"
    using key_right[OF n s(1), of "x - 1"] s by simp
  have c: "i \<le> n - i - 3" using s n by presburger
  show ?thesis using DIRECTION_RIGHT s k k' c
    by (auto simp add: spiral_advance_def spiral_ok_def)
qed

text \<open>Tiles of different blocks, and different tiles of a block, lie on different cells.\<close>

lemma div_block: "0 \<le> t \<Longrightarrow> t < H \<Longrightarrow> ((b::int) * H + t) div H = b"
  by (simp add: add.commute div_pos_pos_trivial)

lemma block_coordinate_unique:
  assumes "(b::int) * H + t = b' * H + t'" "0 \<le> t" "t < H" "0 \<le> t'" "t' < H"
  shows "b = b' \<and> t = t'"
proof -
  have "(b * H + t) div H = b" using assms(2,3) by (rule div_block)
  moreover have "(b' * H + t') div H = b'" using assms(4,5) by (rule div_block)
  ultimately have "b = b'" using assms(1) by simp
  then show ?thesis using assms(1) by simp
qed

lemma spiral_cell_inj:
  assumes "spiral_cell H oq b t = spiral_cell H oq b' t'"
    "t \<in> square_grid H" "t' \<in> square_grid H"
  shows "b = b' \<and> t = t'"
proof -
  have x: "fst b * H + fst t = fst b' * H + fst t'"
    and y: "snd b * H + snd t = snd b' * H + snd t'"
    using assms(1) by (simp_all add: spiral_cell_def)
  have "fst b = fst b' \<and> fst t = fst t'"
    using block_coordinate_unique[OF x] assms(2,3) by (auto simp: square_grid_def)
  moreover have "snd b = snd b' \<and> snd t = snd t'"
    using block_coordinate_unique[OF y] assms(2,3) by (auto simp: square_grid_def)
  ultimately show ?thesis by (simp add: prod_eq_iff)
qed

lemma cell_in_image:
  assumes "1 \<le> sz" "1 \<le> img" "0 \<le> (c::int)" "c * sz < img"
  shows "c < tiles_across sz img"
proof (cases "sz \<ge> img")
  case True
  then have "c * sz < 1 * sz" using assms(4) by linarith
  then have "c < 1" using assms(1) by (simp only: mult_less_cancel_right)
  then show ?thesis using True assms by (simp add: tiles_across_eq)
next
  case False
  have "(c + 1) * sz \<le> img + sz - 1" using assms by (simp add: algebra_simps)
  then have "c + 1 \<le> (img + sz - 1) div sz"
    using zdiv_mono1[of "(c + 1) * sz" "img + sz - 1" sz] assms(1) by simp
  then show ?thesis using False assms by (simp add: tiles_across_eq)
qed

lemma cell_index_range:
  assumes "c \<in> {0..<tile_w} \<times> {0..<tile_h}"
  shows "0 \<le> cell_index tile_w c" "cell_index tile_w c < tile_w * tile_h"
proof -
  from assms have x: "0 \<le> fst c" "fst c < tile_w" and y: "0 \<le> snd c" "snd c + 1 \<le> tile_h"
    by auto
  show "0 \<le> cell_index tile_w c" using x y by (simp add: cell_index_def)
  have "(snd c + 1) * tile_w \<le> tile_h * tile_w"
    using y(2) x by (intro mult_right_mono) simp_all
  then show "cell_index tile_w c < tile_w * tile_h"
    using x by (simp add: cell_index_def algebra_simps)
qed

lemma cell_index_inj:
  assumes "c \<in> {0..<tile_w} \<times> {0..<tile_h}" "c' \<in> {0..<tile_w} \<times> {0..<tile_h}"
    "cell_index tile_w c = cell_index tile_w c'"
  shows "c = c'"
proof -
  have "snd c = snd c' \<and> fst c = fst c'"
    using block_coordinate_unique[of "snd c" tile_w "fst c" "snd c'" "fst c'"] assms
    by (auto simp: cell_index_def)
  then show ?thesis by (simp add: prod_eq_iff)
qed

text \<open>The body of the Hilbert loop gives a tile to a cell that had none, if the cell is in
  the image.\<close>

lemma gen_tiles_hilbert_tile_cell:
  fixes H :: int and oq block :: int2 and prev_dir dir :: SpiralDirection and h :: int
  assumes ts: "1 \<le> fst (tile_size m)" "1 \<le> snd (tile_size m)"
  defines "c \<equiv> spiral_cell H oq block (hilbert_tile H prev_dir dir h)"
  shows "gen_tiles_hilbert_tile H block (fst (tile_size m) * H, snd (tile_size m) * H)
           (fst oq * fst (tile_size m), snd oq * snd (tile_size m)) prev_dir dir image_w image_h
           tile_w per h (m, li, cd, ct) =
     (if 0 \<le> fst c \<and> 0 \<le> snd c \<and> fst c * fst (tile_size m) < image_w
          \<and> snd c * snd (tile_size m) < image_h
      then do {
         m1 \<leftarrow> tile_update (cell_index tile_w c)
                 (\<lambda>_. Tile_new (cell_index tile_w c) (fst c * fst (tile_size m))
                         (snd c * snd (tile_size m))
                         (min (fst (tile_size m)) (image_w - fst c * fst (tile_size m)))
                         (min (snd (tile_size m)) (image_h - snd c * snd (tile_size m)))
                         cd (if only_denoise m then DENOISE else RENDER)
                         (global_buffers (state m))) m;
         m2 \<leftarrow> tile_list_apply li (\<lambda>q. cell_index tile_w c # q) m1;
         if ct + 1 = per then Some (m2, li + 1, cd + 1, 0) else Some (m2, li, cd, ct + 1)
      }
      else Some (m, li, cd, ct))"
proof -
  let ?t = "hilbert_tile H prev_dir dir h"
  let ?tsx = "fst (tile_size m)" and ?tsy = "snd (tile_size m)"
  have px: "fst block * (?tsx * H) + fst ?t * ?tsx + fst oq * ?tsx = fst c * ?tsx"
    and py: "snd block * (?tsy * H) + snd ?t * ?tsy + snd oq * ?tsy = snd c * ?tsy"
    by (simp_all add: c_def spiral_cell_def algebra_simps)
  have nx: "0 \<le> fst c * ?tsx \<longleftrightarrow> 0 \<le> fst c" and ny: "0 \<le> snd c * ?tsy \<longleftrightarrow> 0 \<le> snd c"
    using ts by (simp_all add: zero_le_mult_iff)
  have dx: "0 \<le> fst c \<Longrightarrow> divide_int (fst c * ?tsx) ?tsx = Some (fst c)"
    and dy: "0 \<le> snd c \<Longrightarrow> divide_int (snd c * ?tsy) ?tsy = Some (snd c)"
    using ts by (simp_all add: cdiv_nonneg)
  show ?thesis
  proof (cases "0 \<le> fst c \<and> 0 \<le> snd c \<and> fst c * ?tsx < image_w \<and> snd c * ?tsy < image_h")
    case True
    then have v: "(0 \<le> fst c \<and> 0 \<le> snd c \<and> fst c * ?tsx < image_w \<and> snd c * ?tsy < image_h)
        = True" by simp
    show ?thesis
      unfolding gen_tiles_hilbert_tile_def
      apply (simp only: prod.case Let_def fst_conv snd_conv px py nx ny)
      apply (simp only: v if_True)
      using True apply (simp add: dx dy cell_index_def)
      done
  next
    case False
    then have v: "(0 \<le> fst c \<and> 0 \<le> snd c \<and> fst c * ?tsx < image_w \<and> snd c * ?tsy < image_h)
        = False" by simp
    show ?thesis
      unfolding gen_tiles_hilbert_tile_def
      apply (simp only: prod.case Let_def fst_conv snd_conv px py nx ny)
      apply (simp only: v if_False)
      done
  qed
qed

lemma gen_tiles_hilbert_tile_inv:
  assumes inv: "hilbert_inv m per tile_w C st"
    and C: "C \<subseteq> {0..<tile_w} \<times> {0..<tile_h}"
    and len: "length (tiles (state m)) = nat (tile_w * tile_h)"
    and cov: "nat (tile_w * tile_h) \<le> length (tile_lists m) * per"
    and ts: "1 \<le> fst (tile_size m)" "1 \<le> snd (tile_size m)"
    and img: "1 \<le> image_w" "1 \<le> image_h"
    and tw: "tile_w = tiles_across (fst (tile_size m)) image_w"
      "tile_h = tiles_across (snd (tile_size m)) image_h"
    and new: "spiral_cell H oq block (hilbert_tile H prev_dir dir h) \<notin> C"
  shows "\<exists>st' C'. gen_tiles_hilbert_tile H block (fst (tile_size m) * H, snd (tile_size m) * H)
           (fst oq * fst (tile_size m), snd oq * snd (tile_size m)) prev_dir dir image_w image_h
           tile_w (int per) h st = Some st'
       \<and> hilbert_inv m per tile_w C' st' \<and> C \<subseteq> C'
       \<and> C' \<subseteq> insert (spiral_cell H oq block (hilbert_tile H prev_dir dir h)) C
       \<and> C' \<subseteq> {0..<tile_w} \<times> {0..<tile_h}"
proof -
  define c where "c = spiral_cell H oq block (hilbert_tile H prev_dir dir h)"
  let ?tsx = "fst (tile_size m)" and ?tsy = "snd (tile_size m)"
  obtain m' li cd ct where st: "st = (m', li, cd, ct)" by (cases st) auto
  from inv st have sc: "same_config m m'"
    and q: "queued m' = queued m + image_mset (cell_index tile_w) (mset_set C)"
    and pos: "li = card C div per" "cd = int (card C div per)" "ct = int (card C mod per)"
    by (simp_all add: hilbert_inv_def)
  have ts': "tile_size m' = tile_size m" using same_config_fields(2)[OF sc] .
  have ts1: "1 \<le> fst (tile_size m')" "1 \<le> snd (tile_size m')" using ts ts' by simp_all
  have fin: "finite C" using C by (rule finite_subset) simp
  note unf = gen_tiles_hilbert_tile_cell[OF ts1, where H = H and block = block and oq = oq
      and prev_dir = prev_dir and dir = dir and h = h and image_w = image_w and image_h = image_h
      and tile_w = tile_w and per = "int per" and li = li and cd = cd and ct = ct,
      unfolded ts' c_def[symmetric]]
  show ?thesis
  proof (cases "0 \<le> fst c \<and> 0 \<le> snd c \<and> fst c * ?tsx < image_w \<and> snd c * ?tsy < image_h")
    case False
    then have v: "(0 \<le> fst c \<and> 0 \<le> snd c \<and> fst c * ?tsx < image_w \<and> snd c * ?tsy < image_h)
        = False" by simp
    have "gen_tiles_hilbert_tile H block (?tsx * H, ?tsy * H) (fst oq * ?tsx, snd oq * ?tsy)
        prev_dir dir image_w image_h tile_w (int per) h st = Some st"
      unfolding st unf by (simp only: v if_False)
    then show ?thesis using inv C by (intro exI[of _ st] exI[of _ C]) auto
  next
    case True
    then have v: "(0 \<le> fst c \<and> 0 \<le> snd c \<and> fst c * ?tsx < image_w \<and> snd c * ?tsy < image_h)
        = True" by simp
    from True have cin: "c \<in> {0..<tile_w} \<times> {0..<tile_h}"
      using cell_in_image[OF ts(1) img(1), of "fst c"] cell_in_image[OF ts(2) img(2), of "snd c"]
      by (cases c) (simp add: tw)
    let ?idx = "cell_index tile_w c"
    have r1: "0 \<le> ?idx" "?idx < int (length (tiles (state m')))"
      using cell_index_range[OF cin] same_config_fields(14)[OF sc] len by simp_all
    let ?t = "Tile_new ?idx (fst c * ?tsx) (snd c * ?tsy) (min ?tsx (image_w - fst c * ?tsx))
                (min ?tsy (image_h - snd c * ?tsy)) cd (if only_denoise m' then DENOISE else RENDER)
                (global_buffers (state m'))"
    obtain m1 where m1: "tile_update ?idx (\<lambda>_. ?t) m' = Some m1" "same_config m' m1"
        "queued m1 = queued m'" "tile_lists m1 = tile_lists m'"
      using tile_update_same[OF r1, of "\<lambda>_. ?t"] by blast
    have cnew: "c \<notin> C" using new by (simp add: c_def)
    have "card (insert c C) \<le> card ({0..<tile_w} \<times> {0..<tile_h})"
      using C cin by (intro card_mono) auto
    also have "\<dots> = nat tile_w * nat tile_h" by (simp add: card_cartesian_product)
    also have "\<dots> = nat (tile_w * tile_h)" using cin by (auto simp: nat_mult_distrib)
    finally have "Suc (card C) \<le> length (tile_lists m) * per"
      using cov fin cnew by simp
    then have "card C div per < length (tile_lists m)"
      by (simp add: less_mult_imp_div_less Suc_le_eq)
    then have li: "li < length (tile_lists m1)"
      using pos(1) m1(4) same_config_fields(17)[OF sc] by simp
    obtain m2 where m2: "tile_list_apply li (\<lambda>q. ?idx # q) m1 = Some m2" "same_config m1 m2"
        "queued m2 + mset (tile_lists m1 ! li) = queued m1 + mset (?idx # tile_lists m1 ! li)"
      using tile_list_apply_same[OF li, of "\<lambda>q. ?idx # q"] by blast
    have q2: "queued m2 = queued m + image_mset (cell_index tile_w) (mset_set (insert c C))"
      using m2(3) m1(3) q fin cnew by simp
    have sc2: "same_config m m2" using sc m1(2) m2(2) by (blast intro: same_config_trans)
    have card': "card (insert c C) = Suc (card C)" using fin cnew by simp
    have res: "gen_tiles_hilbert_tile H block (?tsx * H, ?tsy * H) (fst oq * ?tsx, snd oq * ?tsy)
        prev_dir dir image_w image_h tile_w (int per) h st =
        (if ct + 1 = int per then Some (m2, li + 1, cd + 1, 0) else Some (m2, li, cd, ct + 1))"
      unfolding st unf by (simp only: v if_True m1(1) m2(1) Option.bind.simps)
    have "hilbert_inv m per tile_w (insert c C)
        (if ct + 1 = int per then (m2, li + 1, cd + 1, 0) else (m2, li, cd, ct + 1))"
    proof (cases "ct + 1 = int per")
      case full: True
      then have "Suc (card C mod per) = per" using pos by simp
      then have dm: "Suc (card C) mod per = 0" "Suc (card C) div per = Suc (card C div per)"
        by (simp_all add: mod_Suc div_Suc)
      show ?thesis using full pos sc2 q2 dm card' by (simp add: hilbert_inv_def)
    next
      case part: False
      then have "Suc (card C mod per) \<noteq> per" using pos by auto
      then have dm: "Suc (card C) mod per = Suc (card C mod per)"
          "Suc (card C) div per = card C div per"
        by (simp_all add: mod_Suc div_Suc)
      show ?thesis using part pos sc2 q2 dm card' by (simp add: hilbert_inv_def)
    qed
    then show ?thesis using res cin C unfolding c_def[symmetric]
      by (intro exI[of _ "if ct + 1 = int per then (m2, li + 1, cd + 1, 0)
            else (m2, li, cd, ct + 1)"] exI[of _ "insert c C"]) auto
  qed
qed

text \<open>A block, and the spiral from a block on: every cell gets a tile at most once, so the
  queue that \<open>tile_list\<close> points at exists whenever a tile is put into it, and the walk
  ends at the centre block.\<close>

lemma gen_tiles_hilbert_block_inv:
  assumes inv: "hilbert_inv m per tile_w C st"
    and C: "C \<subseteq> {0..<tile_w} \<times> {0..<tile_h}"
    and len: "length (tiles (state m)) = nat (tile_w * tile_h)"
    and cov: "nat (tile_w * tile_h) \<le> length (tile_lists m) * per"
    and ts: "1 \<le> fst (tile_size m)" "1 \<le> snd (tile_size m)"
    and img: "1 \<le> image_w" "1 \<le> image_h"
    and tw: "tile_w = tiles_across (fst (tile_size m)) image_w"
      "tile_h = tiles_across (snd (tile_size m)) image_h"
    and fresh: "\<And>t. t \<in> square_grid (2 ^ k) \<Longrightarrow> spiral_cell (2 ^ k) oq block t \<notin> C"
  shows "\<exists>st' C'. foldM (gen_tiles_hilbert_tile (2 ^ k) block
             (fst (tile_size m) * 2 ^ k, snd (tile_size m) * 2 ^ k)
             (fst oq * fst (tile_size m), snd oq * snd (tile_size m)) prev_dir dir image_w image_h
             tile_w (int per)) (range_int (2 ^ k * 2 ^ k)) st = Some st'
       \<and> hilbert_inv m per tile_w C' st' \<and> C \<subseteq> C'
       \<and> C' \<subseteq> C \<union> spiral_cell (2 ^ k) oq block ` square_grid (2 ^ k)
       \<and> C' \<subseteq> {0..<tile_w} \<times> {0..<tile_h}"
proof -
  let ?H = "(2::int) ^ k"
  let ?f = "gen_tiles_hilbert_tile ?H block (fst (tile_size m) * ?H, snd (tile_size m) * ?H)
             (fst oq * fst (tile_size m), snd oq * snd (tile_size m)) prev_dir dir image_w image_h
             tile_w (int per)"
  let ?cell = "\<lambda>j. spiral_cell ?H oq block (hilbert_tile ?H prev_dir dir (int j))"
  define n where "n = nat (?H * ?H)"
  have ni: "int n = ?H * ?H" by (simp add: n_def)
  define I where "I = (\<lambda>j st. \<exists>C'. hilbert_inv m per tile_w C' st \<and> C \<subseteq> C'
      \<and> C' \<subseteq> C \<union> ?cell ` {0..<j} \<and> C' \<subseteq> {0..<tile_w} \<times> {0..<tile_h})"
  have "\<exists>st'. foldM ?f (range_int (int n)) st = Some st' \<and> I n st'"
  proof (rule foldM_range[where I = I])
    show "I 0 st" unfolding I_def using inv C by (intro exI[of _ C]) simp
  next
    fix j s assume j: "j < n" and Ij: "I j s"
    then obtain C1 where C1: "hilbert_inv m per tile_w C1 s" "C \<subseteq> C1"
        "C1 \<subseteq> C \<union> ?cell ` {0..<j}" "C1 \<subseteq> {0..<tile_w} \<times> {0..<tile_h}"
      unfolding I_def by blast
    have jr: "int j \<in> {0..<?H * ?H}" using j ni by simp
    have tj: "hilbert_tile ?H prev_dir dir (int j) \<in> square_grid ?H"
      using hilbert_tile_inj_range(1)[OF jr] .
    have new: "?cell j \<notin> C1"
    proof
      assume "?cell j \<in> C1"
      then have "?cell j \<in> ?cell ` {0..<j}" using C1(3) fresh[OF tj] by blast
      then obtain j' where j': "j' < j" "?cell j = ?cell j'" by auto
      have jr': "int j' \<in> {0..<?H * ?H}" using j' j ni by simp
      have "hilbert_tile ?H prev_dir dir (int j') = hilbert_tile ?H prev_dir dir (int j)"
        using spiral_cell_inj[OF j'(2) tj hilbert_tile_inj_range(1)[OF jr']] by simp
      then have "int j' = int j" using hilbert_tile_inj_range(2)[OF jr jr'] by simp
      then show False using j'(1) by simp
    qed
    from gen_tiles_hilbert_tile_inv[OF C1(1) C1(4) len cov ts img tw new]
    obtain s' C2 where r: "?f (int j) s = Some s'" "hilbert_inv m per tile_w C2 s'" "C1 \<subseteq> C2"
        "C2 \<subseteq> insert (?cell j) C1" "C2 \<subseteq> {0..<tile_w} \<times> {0..<tile_h}"
      by blast
    have "C2 \<subseteq> C \<union> ?cell ` {0..<Suc j}"
    proof
      fix c assume "c \<in> C2"
      then have "c = ?cell j \<or> c \<in> C1" using r(4) by blast
      then show "c \<in> C \<union> ?cell ` {0..<Suc j}"
      proof
        assume "c = ?cell j"
        then have "c \<in> ?cell ` {0..<Suc j}" by (intro image_eqI[where x = j]) simp_all
        then show ?thesis by blast
      next
        assume "c \<in> C1"
        then have "c \<in> C \<or> c \<in> ?cell ` {0..<j}" using C1(3) by blast
        then show ?thesis by (auto simp: less_Suc_eq)
      qed
    qed
    then have "I (Suc j) s'" unfolding I_def using r(2,3,5) C1(2) by (intro exI[of _ C2]) blast
    then show "\<exists>s'. ?f (int j) s = Some s' \<and> I (Suc j) s'" using r(1) by blast
  qed
  then obtain st' C' where r: "foldM ?f (range_int (?H * ?H)) st = Some st'"
      "hilbert_inv m per tile_w C' st'" "C \<subseteq> C'" "C' \<subseteq> C \<union> ?cell ` {0..<n}"
      "C' \<subseteq> {0..<tile_w} \<times> {0..<tile_h}"
    unfolding I_def ni by blast
  have "?cell ` {0..<n} \<subseteq> spiral_cell ?H oq block ` square_grid ?H"
  proof
    fix c assume "c \<in> ?cell ` {0..<n}"
    then obtain j where j: "j < n" "c = ?cell j" by auto
    have "int j \<in> {0..<?H * ?H}" using j ni by simp
    then show "c \<in> spiral_cell ?H oq block ` square_grid ?H"
      using hilbert_tile_inj_range(1) j(2) by blast
  qed
  then have "C' \<subseteq> C \<union> spiral_cell ?H oq block ` square_grid ?H" using r(4) by blast
  then show ?thesis using r(1,2,3,5) by blast
qed

lemma gen_tiles_spiral_inv:
  assumes n: "odd n" "1 \<le> n"
    and len: "length (tiles (state m)) = nat (tile_w * tile_h)"
    and cov: "nat (tile_w * tile_h) \<le> length (tile_lists m) * per"
    and ts: "1 \<le> fst (tile_size m)" "1 \<le> snd (tile_size m)"
    and img: "1 \<le> image_w" "1 \<le> image_h"
    and tw: "tile_w = tiles_across (fst (tile_size m)) image_w"
      "tile_h = tiles_across (snd (tile_size m)) image_h"
  shows "hilbert_inv m per tile_w C st \<Longrightarrow> C \<subseteq> {0..<tile_w} \<times> {0..<tile_h} \<Longrightarrow>
     b = ((n - 1) div 2, (n - 1) div 2) \<or> spiral_ok n i b dir \<Longrightarrow>
     (\<And>c. c \<in> C \<Longrightarrow> \<exists>b' t. c = spiral_cell (2 ^ k) oq b' t \<and> t \<in> square_grid (2 ^ k)
                            \<and> block_key n b' < block_key n b) \<Longrightarrow>
     \<exists>m' C'. gen_tiles_spiral (2 ^ k) (fst (tile_size m) * 2 ^ k, snd (tile_size m) * 2 ^ k)
                (fst oq * fst (tile_size m), snd oq * snd (tile_size m)) image_w image_h tile_w
                (int per) n i b prev_dir dir st = Some m'
            \<and> same_config m m'
            \<and> queued m' = queued m + image_mset (cell_index tile_w) (mset_set C')
            \<and> C' \<subseteq> {0..<tile_w} \<times> {0..<tile_h}"
proof (induction "nat (n * n - 1 - block_key n b)" arbitrary: i b prev_dir dir st C
    rule: less_induct)
  case less
  let ?H = "(2::int) ^ k"
  let ?bs = "(fst (tile_size m) * ?H, snd (tile_size m) * ?H)"
  let ?off = "(fst oq * fst (tile_size m), snd oq * snd (tile_size m))"
  let ?center = "((n - 1) div 2, (n - 1) div 2)"
  have cd: "cdiv (n - 1) 2 = (n - 1) div 2" using n(2) by (simp add: cdiv_nonneg)
  have fresh: "\<And>t. t \<in> square_grid ?H \<Longrightarrow> spiral_cell ?H oq b t \<notin> C"
  proof
    fix t assume t: "t \<in> square_grid ?H" and "spiral_cell ?H oq b t \<in> C"
    then obtain b' t' where e: "spiral_cell ?H oq b t = spiral_cell ?H oq b' t'"
        "t' \<in> square_grid ?H" "block_key n b' < block_key n b"
      using less.prems(4) by blast
    from spiral_cell_inj[OF e(1) t e(2)] e(3) show False by simp
  qed
  from gen_tiles_hilbert_block_inv[OF less.prems(1,2) len cov ts img tw fresh,
      where prev_dir = prev_dir and dir = dir]
  obtain st1 C1 where b1: "foldM (gen_tiles_hilbert_tile ?H b ?bs ?off prev_dir dir image_w image_h
        tile_w (int per)) (range_int (?H * ?H)) st = Some st1"
      "hilbert_inv m per tile_w C1 st1" "C \<subseteq> C1"
      "C1 \<subseteq> C \<union> spiral_cell ?H oq b ` square_grid ?H" "C1 \<subseteq> {0..<tile_w} \<times> {0..<tile_h}"
    by blast
  show ?case
  proof (cases "b = ?center")
    case True
    then have ce: "fst b = (n - 1) div 2" "snd b = (n - 1) div 2" by simp_all
    have "gen_tiles_spiral ?H ?bs ?off image_w image_h tile_w (int per) n i b prev_dir dir st
        = Some (fst st1)"
      by (subst gen_tiles_spiral.simps) (simp add: b1(1) ce cd)
    moreover obtain m1 li cd ct where st1: "st1 = (m1, li, cd, ct)" by (cases st1) auto
    ultimately show ?thesis using b1(2,5) by (auto simp: hilbert_inv_def)
  next
    case False
    then have ok: "spiral_ok n i (fst b, snd b) dir" using less.prems(3) by simp
    obtain i' b' dir' where adv: "spiral_advance n i b dir = (i', b', dir')"
      by (cases "spiral_advance n i b dir") auto
    from spiral_step[OF n(1) ok] adv
    have nx: "b' = ?center \<or> spiral_ok n i' b' dir'" and key: "block_key n b' = block_key n b + 1"
      by simp_all
    have bound: "block_key n b' \<le> n * n - 1"
    proof (cases "b' = ?center")
      case True
      then show ?thesis using key_center[OF n] by simp
    next
      case False
      then have "spiral_ok n i' (fst b', snd b') dir'" using nx by simp
      then show ?thesis using spiral_key_bound[OF n(1), of i' "fst b'" "snd b'" dir'] by simp
    qed
    have meas: "nat (n * n - 1 - block_key n b') < nat (n * n - 1 - block_key n b)"
      using key bound by simp
    have prev: "\<And>c. c \<in> C1 \<Longrightarrow> \<exists>b'' t. c = spiral_cell ?H oq b'' t \<and> t \<in> square_grid ?H
                            \<and> block_key n b'' < block_key n b'"
    proof -
      fix c assume "c \<in> C1"
      then have "c \<in> C \<or> c \<in> spiral_cell ?H oq b ` square_grid ?H" using b1(4) by blast
      then show "\<exists>b'' t. c = spiral_cell ?H oq b'' t \<and> t \<in> square_grid ?H
                            \<and> block_key n b'' < block_key n b'"
      proof
        assume "c \<in> C"
        then obtain b'' t where "c = spiral_cell ?H oq b'' t" "t \<in> square_grid ?H"
            "block_key n b'' < block_key n b"
          using less.prems(4) by blast
        then show ?thesis using key by (intro exI[of _ b''] exI[of _ t]) simp
      next
        assume "c \<in> spiral_cell ?H oq b ` square_grid ?H"
        then obtain t where "c = spiral_cell ?H oq b t" "t \<in> square_grid ?H" by blast
        then show ?thesis using key by (intro exI[of _ b] exI[of _ t]) simp
      qed
    qed
    from less.hyps[OF meas b1(2) b1(5) nx prev, of dir]
    obtain m' C' where r: "gen_tiles_spiral ?H ?bs ?off image_w image_h tile_w (int per) n i' b'
          dir dir' st1 = Some m'" "same_config m m'"
        "queued m' = queued m + image_mset (cell_index tile_w) (mset_set C')"
        "C' \<subseteq> {0..<tile_w} \<times> {0..<tile_h}"
      by blast
    have ne: "\<not> (fst b = (n - 1) div 2 \<and> snd b = (n - 1) div 2)"
      using False by (cases b) auto
    have "gen_tiles_spiral ?H ?bs ?off image_w image_h tile_w (int per) n i b prev_dir dir st
        = Some m'"
      by (subst gen_tiles_spiral.simps) (simp add: b1(1) ne cd adv r(1))
    then show ?thesis using r(2,3,4) by blast
  qed
qed

lemma gen_tiles_hilbert_tile_gen_ready:
  assumes r: "gen_tiles_hilbert_tile H block block_size offset prev_dir dir image_w image_h tile_w
                per h st = Some st'"
    and g: "gen_ready (fst st)"
  shows "gen_ready (fst st')"
proof -
  obtain m li cd ct where st: "st = (m, li, cd, ct)" by (cases st) auto
  from r consider (skip) "st' = st"
    | (tile) idx x y w h' m1 where
        "tile_update idx (\<lambda>_. Tile_new idx x y w h' cd
            (if only_denoise m then DENOISE else RENDER) (global_buffers (state m))) m = Some m1"
        "tile_list_apply li (\<lambda>q. idx # q) m1 = Some (fst st')"
    unfolding gen_tiles_hilbert_tile_def st Let_def
    by (auto simp: bind_eq_Some_conv split: if_splits)
  then show ?thesis
  proof cases
    case skip
    then show ?thesis using g by simp
  next
    case tile
    have g0: "gen_ready m" using g st by simp
    have s: "only_denoise m \<Longrightarrow> t_state (Tile_new idx x y w h' cd
            (if only_denoise m then DENOISE else RENDER) (global_buffers (state m))) = DENOISE"
      by (simp add: Tile_new_def)
    note u = tile_update_gen_ready[OF tile(1) g0 s]
    have ok1: "only_denoise m1 \<Longrightarrow> 0 \<le> idx \<and> idx < int (length (tiles (state m1)))
               \<and> t_state (tiles (state m1) ! nat idx) = DENOISE"
      using u(2-5) by simp
    show ?thesis using tile_list_apply_gen_ready(1)[OF tile(2) u(1) _ ok1] by simp
  qed
qed

lemma gen_tiles_spiral_gen_ready:
  assumes "gen_tiles_spiral H block_size offset image_w image_h tile_w per n i block prev_dir dir st
     = Some m'"
  shows "gen_ready (fst st) \<longrightarrow> gen_ready m'"
proof (rule gen_tiles_spiral.raw_induct[where P = "\<lambda>H block_size offset image_w
    image_h tile_w per n i block prev_dir dir st m'. gen_ready (fst st) \<longrightarrow> gen_ready m'",
    OF _ assms])
  fix spiral H block_size offset image_w image_h tile_w per n i block prev_dir dir st m'
  assume IH: "\<And>H block_size offset image_w image_h tile_w per n i block prev_dir dir st m'.
      spiral H block_size offset image_w image_h tile_w per n i block prev_dir dir st = Some m'
      \<Longrightarrow> gen_ready (fst st) \<longrightarrow> gen_ready m'"
    and body: "foldM (gen_tiles_hilbert_tile H block block_size offset prev_dir dir image_w
          image_h tile_w per) (range_int (H * H)) st \<bind>
        (\<lambda>st'. if fst block = cdiv (n - 1) 2 \<and> snd block = cdiv (n - 1) 2 then Some (fst st')
              else case spiral_advance n i block dir of
                   (i', block', dir') \<Rightarrow> spiral H block_size offset image_w image_h tile_w per
                       n i' block' dir dir' st') = Some m'"
  show "gen_ready (fst st) \<longrightarrow> gen_ready m'"
  proof
    assume g: "gen_ready (fst st)"
    from body obtain st1 where
      f: "foldM (gen_tiles_hilbert_tile H block block_size offset prev_dir dir image_w image_h
            tile_w per) (range_int (H * H)) st = Some st1"
      and rest: "(if fst block = cdiv (n - 1) 2 \<and> snd block = cdiv (n - 1) 2 then Some (fst st1)
            else case spiral_advance n i block dir of
                 (i', block', dir') \<Rightarrow> spiral H block_size offset image_w image_h tile_w per n
                     i' block' dir dir' st1) = Some m'"
      by (auto simp: bind_eq_Some_conv)
    have g1: "gen_ready (fst st1)"
    proof (rule foldM_preserves[where P = "\<lambda>s. gen_ready (fst s)"
          and f = "gen_tiles_hilbert_tile H block block_size offset prev_dir dir image_w image_h
            tile_w per", OF _ f g])
      fix h s3 s4
      assume "gen_tiles_hilbert_tile H block block_size offset prev_dir dir image_w image_h
            tile_w per h s3 = Some s4" "gen_ready (fst s3)"
      then show "gen_ready (fst s4)" by (rule gen_tiles_hilbert_tile_gen_ready)
    qed
    show "gen_ready m'"
    proof (cases "fst block = cdiv (n - 1) 2 \<and> snd block = cdiv (n - 1) 2")
      case True
      then show ?thesis using rest g1 by simp
    next
      case False
      obtain i' block' dir' where adv: "spiral_advance n i block dir = (i', block', dir')"
        by (cases "spiral_advance n i block dir") auto
      have "spiral H block_size offset image_w image_h tile_w per n i' block' dir dir' st1
          = Some m'" using rest False adv by simp
      from IH[OF this] g1 show ?thesis by simp
    qed
  qed
qed

lemma odd_side: "1 \<le> (a::int) \<Longrightarrow> odd (a OR 1) \<and> 1 \<le> a OR 1"
  using or_greater_eq[of 1 a] by (simp add: even_or_iff)

lemma count_image_mset_set:
  assumes "finite C" "inj_on f C"
  shows "count (image_mset f (mset_set C)) a \<le> 1"
  using assms by (simp add: image_mset_mset_set count_mset_set')

lemma gen_tiles_hilbert_returns:
  assumes wc: "well_configured m" and ord: "tile_order m = TILE_HILBERT_SPIRAL"
  defines "image_w \<equiv> max 1 (cdiv (width (params m)) (resolution_divider (state m)))"
      and "image_h \<equiv> max 1 (cdiv (height (params m)) (resolution_divider (state m)))"
  defines "tile_w \<equiv> tiles_across (fst (tile_size m)) image_w"
      and "tile_h \<equiv> tiles_across (snd (tile_size m)) image_h"
  defines "num \<equiv> min image_h (if preserve_tile_device m then num_devices m else 1)"
  shows "\<exists>m'. gen_tiles uninit False m = Some (tile_w * tile_h, m') \<and> gen_frame m m'
       \<and> length (tiles (state m')) = nat (tile_w * tile_h)
       \<and> length (render_tiles (state m')) = nat num
       \<and> length (denoise_tiles (state m')) = nat num
       \<and> tile_stride (state m') = tile_w \<and> gen_ready m'
       \<and> (\<forall>a. count (queued m') a \<le> 1)"
proof -
  let ?res = "resolution_divider (state m)"
  let ?tsx = "fst (tile_size m)" and ?tsy = "snd (tile_size m)"
  from wc have res: "?res \<noteq> 0" and tsx: "1 \<le> ?tsx" and tsy: "1 \<le> ?tsy"
    and nd: "preserve_tile_device m \<Longrightarrow> 1 \<le> num_devices m"
    by (auto simp: well_configured_def split: if_splits)
  have iw: "1 \<le> image_w" and ih: "1 \<le> image_h" by (simp_all add: image_w_def image_h_def)
  have tw1: "1 \<le> tile_w" and th1: "1 \<le> tile_h"
    using tiles_across_pos tsx tsy iw ih by (simp_all add: tile_w_def tile_h_def)
  have num1: "1 \<le> num" using ih nd by (auto simp: num_def)
  have T0: "0 \<le> tile_w * tile_h" using tw1 th1 by simp
  have T1: "1 \<le> tile_w * tile_h" using tw1 th1 by (smt (verit) mult_le_cancel_left1)
  define k :: nat where "k = (if max ?tsx ?tsy \<le> 12 then 3 else 2)"
  have H: "(if max ?tsx ?tsy \<le> 12 then 8 else 4) = (2::int) ^ k" by (simp add: k_def)
  have H1: "(1::int) \<le> 2 ^ k" by simp
  define per where "per = nat (cdiv (tile_w * tile_h + num - 1) num)"
  have per1: "1 \<le> cdiv (tile_w * tile_h + num - 1) num"
    and cov: "tile_w * tile_h \<le> num * cdiv (tile_w * tile_h + num - 1) num"
    using ceil_div_covers[OF T1 num1] by simp_all
  have peri: "cdiv (tile_w * tile_h + num - 1) num = int per" using per1 by (simp add: per_def)
  define n where "n = (max (tiles_across (?tsx * 2 ^ k) image_w)
      (tiles_across (?tsy * 2 ^ k) image_h)) OR 1"
  have bs1: "1 \<le> ?tsx * 2 ^ k" "1 \<le> ?tsy * 2 ^ k"
    using tsx tsy H1 by (smt (verit) mult_le_cancel_left1)+
  have "1 \<le> max (tiles_across (?tsx * 2 ^ k) image_w) (tiles_across (?tsy * 2 ^ k) image_h)"
    using tiles_across_pos[OF bs1(1) iw] by simp
  then have n: "odd n" "1 \<le> n" unfolding n_def using odd_side by blast+
  define oq where "oq = (cdiv (cdiv (image_w - n * (?tsx * 2 ^ k)) 2) ?tsx,
      cdiv (cdiv (image_h - n * (?tsy * 2 ^ k)) 2) ?tsy)"
  define mr where "mr = m\<lparr>state := (state m)\<lparr>tiles := map uninit [0..<nat (tile_w * tile_h)],
      render_tiles := map (\<lambda>_. []) [0..<nat num], denoise_tiles := map (\<lambda>_. []) [0..<nat num],
      tile_stride := tile_w\<rparr>\<rparr>"
  have mr_len: "length (tiles (state mr)) = nat (tile_w * tile_h)" "length (tile_lists mr) = nat num"
    "length (render_tiles (state mr)) = nat num" "length (denoise_tiles (state mr)) = nat num"
    by (simp_all add: mr_def tile_lists_def)
  have mr_q: "queued mr = {#}" by (simp add: mr_def queued_def)
  have mr_ts: "tile_size mr = tile_size m" by (simp add: mr_def)
  have ts0: "?tsx \<noteq> 0" "?tsy \<noteq> 0" "?tsx * 2 ^ k \<noteq> 0" "?tsy * 2 ^ k \<noteq> 0"
    using tsx tsy by simp_all
  have nT: "\<not> tile_w * tile_h < 0" and nn: "\<not> num < 0" and num0: "num \<noteq> 0"
    using T0 num1 by simp_all
  have mr_ord: "tile_order mr = tile_order m" by (simp add: mr_def)
  have oqx: "fst oq = cdiv (cdiv (image_w - n * (?tsx * 2 ^ k)) 2) ?tsx"
    and oqy: "snd oq = cdiv (cdiv (image_h - n * (?tsy * 2 ^ k)) 2) ?tsy"
    by (simp_all add: oq_def)
  have unf: "gen_tiles uninit False m =
      gen_tiles_spiral (2 ^ k) (?tsx * 2 ^ k, ?tsy * 2 ^ k) (fst oq * ?tsx, snd oq * ?tsy)
         image_w image_h tile_w (int per) n 0 (0, 0) DIRECTION_UP DIRECTION_UP (mr, 0, 0, 0)
       \<bind> (\<lambda>m'. Some (tile_w * tile_h, m'))"
    unfolding gen_tiles_def
    apply (simp only: Let_def divide_int_Some[OF res] Option.bind.simps)
    apply (fold image_w_def image_h_def)
    apply (simp only: tiles_across_option[OF ts0(1)] tiles_across_option[OF ts0(2)]
        Option.bind.simps)
    apply (fold tile_w_def tile_h_def num_def)
    apply (simp only: vector_resize_def nT nn if_False Option.bind.simps)
    apply (fold mr_def)
    apply (simp only: mr_ord mr_ts ord if_True if_False simp_thms H fst_conv snd_conv)
    apply (simp only: divide_int_Some[OF num0] peri Option.bind.simps
        tiles_across_option[OF ts0(3)] tiles_across_option[OF ts0(4)])
    apply (fold n_def)
    apply (simp only: divide_int_Some[OF ts0(1)] divide_int_Some[OF ts0(2)] Option.bind.simps
        fst_conv snd_conv oqx[symmetric] oqy[symmetric])
    done
  have inv0: "hilbert_inv mr per tile_w {} (mr, 0, 0, 0)" by (simp add: hilbert_inv_def)
  have cov': "nat (tile_w * tile_h) \<le> length (tile_lists mr) * per"
  proof -
    have "int (nat (tile_w * tile_h)) \<le> int (nat num * per)" using cov peri num1 T0 by simp
    then show ?thesis unfolding mr_len by (simp only: of_nat_le_iff)
  qed
  have start: "(0, 0) = ((n - 1) div 2, (n - 1) div 2) \<or> spiral_ok n 0 (0, 0) DIRECTION_UP"
  proof (cases "n = 1")
    case True
    then show ?thesis by simp
  next
    case False
    then have "3 \<le> n" using n by presburger
    then show ?thesis by (simp add: spiral_ok_def)
  qed
  have ts': "1 \<le> fst (tile_size mr)" "1 \<le> snd (tile_size mr)" using tsx tsy mr_ts by simp_all
  have tw': "tile_w = tiles_across (fst (tile_size mr)) image_w"
      "tile_h = tiles_across (snd (tile_size mr)) image_h"
    by (simp_all add: tile_w_def tile_h_def mr_ts)
  from gen_tiles_spiral_inv[OF n mr_len(1) cov' ts' iw ih tw' inv0 _ start,
      where k = k and oq = oq and prev_dir = DIRECTION_UP, unfolded mr_ts]
  obtain m' C where r: "gen_tiles_spiral (2 ^ k) (?tsx * 2 ^ k, ?tsy * 2 ^ k)
        (fst oq * ?tsx, snd oq * ?tsy) image_w image_h tile_w (int per) n 0 (0, 0)
        DIRECTION_UP DIRECTION_UP (mr, 0, 0, 0) = Some m'" "same_config mr m'"
      "queued m' = queued mr + image_mset (cell_index tile_w) (mset_set C)"
      "C \<subseteq> {0..<tile_w} \<times> {0..<tile_h}"
    by auto
  have res: "gen_tiles uninit False m = Some (tile_w * tile_h, m')" using unf r(1) by simp
  have frame: "gen_frame m m'"
  proof -
    from r(2) obtain ts rt dt where "m' = mr\<lparr>state := (state mr)\<lparr>tiles := ts, render_tiles := rt,
        denoise_tiles := dt\<rparr>\<rparr>" unfolding same_config_def by blast
    then have "m' = m\<lparr>state := (state m)\<lparr>tiles := ts, render_tiles := rt,
        denoise_tiles := dt, tile_stride := tile_w, num_tiles := num_tiles (state m),
        buffer := buffer (state m)\<rparr>\<rparr>" by (simp add: mr_def)
    then show ?thesis unfolding gen_frame_def by blast
  qed
  have fin: "finite C" using r(4) by (rule finite_subset) simp
  have inj: "inj_on (cell_index tile_w) C"
    using cell_index_inj r(4) by (intro inj_onI) blast
  have q: "\<forall>a. count (queued m') a \<le> 1"
    using count_image_mset_set[OF fin inj] r(3) mr_q by simp
  have g0: "gen_ready mr" by (simp add: gen_ready_def mr_def)
  have gr: "gen_ready m'" using gen_tiles_spiral_gen_ready[OF r(1)] g0 by simp
  have "tile_stride (state m') = tile_w" using same_config_fields(22)[OF r(2)] by (simp add: mr_def)
  then show ?thesis
    using res frame same_config_fields(14,15,16)[OF r(2)] mr_len q gr by simp
qed

section \<open>What \<open>set_tiles\<close> leaves behind\<close>

lemma gen_frame_fields:
  assumes "gen_frame m m'"
  shows "params m' = params m" "tile_size m' = tile_size m" "tile_order m' = tile_order m"
    "only_denoise m' = only_denoise m" "preserve_tile_device m' = preserve_tile_device m"
    "background m' = background m" "num_devices m' = num_devices m"
    "progressive m' = progressive m" "num_samples m' = num_samples m"
    "range_start_sample m' = range_start_sample m" "range_num_samples m' = range_num_samples m"
    "schedule_denoising m' = schedule_denoising m" "start_resolution m' = start_resolution m"
    "global_buffers (state m') = global_buffers (state m)"
    "sample (state m') = sample (state m)"
    "state_num_samples (state m') = state_num_samples (state m)"
    "resolution_divider (state m') = resolution_divider (state m)"
    "num_rendered_tiles (state m') = num_rendered_tiles (state m)"
    "total_pixel_samples (state m') = total_pixel_samples (state m)"
  using assms unfolding gen_frame_def by auto

lemma gen_frame_well_configured:
  "gen_frame m m' \<Longrightarrow> well_configured m \<Longrightarrow> well_configured m'"
  using gen_frame_fields[of m m'] by (simp add: well_configured_def)

lemma gen_tiles_runs:
  assumes wc: "well_configured m"
  defines "image_w \<equiv> max 1 (cdiv (width (params m)) (resolution_divider (state m)))"
      and "image_h \<equiv> max 1 (cdiv (height (params m)) (resolution_divider (state m)))"
  defines "tile_w \<equiv> tiles_across (fst (tile_size m)) image_w"
      and "tile_h \<equiv> tiles_across (snd (tile_size m)) image_h"
  defines "num \<equiv> min image_h (if preserve_tile_device m then num_devices m else 1)"
  shows "\<exists>m'. gen_tiles uninit (\<not> background m) m = Some (tile_w * tile_h, m') \<and> gen_frame m m'
       \<and> length (tiles (state m')) = nat (tile_w * tile_h)
       \<and> length (render_tiles (state m')) = nat num
       \<and> length (denoise_tiles (state m')) = nat num
       \<and> tile_stride (state m') = tile_w \<and> gen_ready m'
       \<and> ((if background m then 1 else num) = 1 \<longrightarrow> (\<forall>a. count (queued m') a \<le> 1))"
proof (cases "tile_order m = TILE_HILBERT_SPIRAL")
  case True
  then have "background m" using wc by (simp add: well_configured_def)
  then show ?thesis
    using gen_tiles_hilbert_returns[OF wc True, of uninit]
    unfolding image_w_def image_h_def tile_w_def tile_h_def num_def by auto
next
  case False
  from gen_tiles_returns[OF wc False, of uninit "\<not> background m"]
  obtain m' where m': "gen_tiles uninit (\<not> background m) m = Some (tile_w * tile_h, m')"
      "gen_frame m m'" "length (tiles (state m')) = nat (tile_w * tile_h)"
      "length (render_tiles (state m')) = nat num" "length (denoise_tiles (state m')) = nat num"
      "tile_stride (state m') = tile_w" "gen_ready m'"
      "(if \<not> background m then num else 1) = 1
          \<longrightarrow> queued m' = mset (map int [0..<nat (tile_w * tile_h)])"
    unfolding image_w_def image_h_def tile_w_def tile_h_def num_def by blast
  have "(if background m then 1 else num) = 1 \<longrightarrow> (\<forall>a. count (queued m') a \<le> 1)"
  proof (intro impI allI)
    fix a assume "(if background m then 1 else num) = 1"
    then have "queued m' = mset (map int [0..<nat (tile_w * tile_h)])"
      using m'(8) by (auto split: if_splits)
    moreover have "distinct (map int [0..<nat (tile_w * tile_h)])" by (simp add: distinct_map)
    ultimately show "count (queued m') a \<le> 1" by (simp add: distinct_count_atmost_1)
  qed
  then show ?thesis using m'(1-7) by blast
qed

lemma set_tiles_returns:
  assumes wc: "well_configured m"
  defines "image_w \<equiv> max 1 (cdiv (width (params m)) (resolution_divider (state m)))"
      and "image_h \<equiv> max 1 (cdiv (height (params m)) (resolution_divider (state m)))"
  defines "tile_w \<equiv> tiles_across (fst (tile_size m)) image_w"
      and "tile_h \<equiv> tiles_across (snd (tile_size m)) image_h"
  defines "num \<equiv> min image_h (if preserve_tile_device m then num_devices m else 1)"
  shows "\<exists>m'. set_tiles uninit m = Some m' \<and> gen_frame m m'
       \<and> num_tiles (state m') = tile_w * tile_h
       \<and> length (tiles (state m')) = nat (tile_w * tile_h)
       \<and> length (render_tiles (state m')) = nat num
       \<and> length (denoise_tiles (state m')) = nat num
       \<and> tile_stride (state m') = tile_w \<and> gen_ready m'
       \<and> ((if background m then 1 else num) = 1 \<longrightarrow> (\<forall>a. count (queued m') a \<le> 1))"
proof -
  from wc have res: "resolution_divider (state m) \<noteq> 0" by (simp add: well_configured_def)
  from gen_tiles_runs[OF wc, of uninit]
  obtain m1 where m1: "gen_tiles uninit (\<not> background m) m = Some (tile_w * tile_h, m1)"
      "gen_frame m m1" "length (tiles (state m1)) = nat (tile_w * tile_h)"
      "length (render_tiles (state m1)) = nat num" "length (denoise_tiles (state m1)) = nat num"
      "tile_stride (state m1) = tile_w" "gen_ready m1"
      "(if background m then 1 else num) = 1 \<longrightarrow> (\<forall>a. count (queued m1) a \<le> 1)"
    unfolding image_w_def image_h_def tile_w_def tile_h_def num_def by blast
  let ?b = "(buffer (state m1))\<lparr>width := image_w, height := image_h,
                   full_x := cdiv (full_x (params m1)) (resolution_divider (state m)),
                   full_y := cdiv (full_y (params m1)) (resolution_divider (state m)),
                   full_width := max 1 (cdiv (full_width (params m1)) (resolution_divider (state m))),
                   full_height := max 1 (cdiv (full_height (params m1)) (resolution_divider (state m)))\<rparr>"
  let ?m' = "m1\<lparr>state := (state m1)\<lparr>num_tiles := tile_w * tile_h, buffer := ?b\<rparr>\<rparr>"
  have r: "set_tiles uninit m = Some ?m'"
    unfolding set_tiles_def using res m1(1)
    by (simp add: Let_def image_w_def image_h_def)
  have f: "gen_frame m ?m'"
  proof -
    from m1(2) obtain ts rt dt st n b where "m1 = m\<lparr>state := (state m)\<lparr>tiles := ts,
        render_tiles := rt, denoise_tiles := dt, tile_stride := st, num_tiles := n,
        buffer := b\<rparr>\<rparr>" unfolding gen_frame_def by blast
    then have "?m' = m\<lparr>state := (state m)\<lparr>tiles := ts,
        render_tiles := rt, denoise_tiles := dt, tile_stride := st, num_tiles := tile_w * tile_h,
        buffer := ?b\<rparr>\<rparr>" by simp
    then show ?thesis unfolding gen_frame_def by blast
  qed
  have q: "queued ?m' = queued m1" by (simp add: queued_def)
  have gr: "gen_ready ?m'" using m1(7) by (simp add: gen_ready_def)
  show ?thesis using r f m1(3-6,8) q gr by (auto split: if_splits)
qed

text \<open>
  Claim C5, as stated, fails: for a 0 x 0 image \<open>gen_tiles\<close> returns 1 and \<open>set_tiles\<close> sets
  \<open>state.num_tiles\<close> to 1.
\<close>

theorem set_tiles_zero_sized_counterexample:
  "map_option fst
     (TileManager_new BufferParams_zero 0 False 1 (64, 64) INT_MAX False True TILE_CENTER 1 False
        \<bind> reset BufferParams_zero (image_params 0 0) 1
        \<bind> gen_tiles unset_tile False) = Some 1
   \<and> map_option (num_tiles \<circ> state)
     (TileManager_new BufferParams_zero 0 False 1 (64, 64) INT_MAX False True TILE_CENTER 1 False
        \<bind> reset BufferParams_zero (image_params 0 0) 1
        \<bind> set_tiles unset_tile) = Some 1"
  by code_simp

text \<open>
  Claim C5, amended.  When the width or the height of the image is 0, \<open>max(1, \<dots>)\<close> makes the
  effective image at least one pixel wide and high: for every tile order, on a
  configuration where \<open>set_tiles\<close> meets no division by zero and no failed assertion,
  \<open>gen_tiles\<close> returns a number of tiles that is at least 1, \<open>set_tiles\<close> stores it in
  \<open>state.num_tiles\<close>, and it is exactly 1 when both the width and the height are 0.
\<close>

theorem set_tiles_zero_sized:
  assumes "well_configured m" and "width (params m) = 0 \<or> height (params m) = 0"
  shows "\<exists>n m1 m'. gen_tiles uninit (\<not> background m) m = Some (n, m1)
           \<and> set_tiles uninit m = Some m' \<and> num_tiles (state m') = n \<and> 1 \<le> n
           \<and> (if width (params m) = 0 \<and> height (params m) = 0 then n = 1 else True)"
proof -
  let ?iw = "max 1 (cdiv (width (params m)) (resolution_divider (state m)))"
  let ?ih = "max 1 (cdiv (height (params m)) (resolution_divider (state m)))"
  let ?tw = "tiles_across (fst (tile_size m)) ?iw"
  let ?th = "tiles_across (snd (tile_size m)) ?ih"
  from assms(1) have ts: "1 \<le> fst (tile_size m)" "1 \<le> snd (tile_size m)"
    by (simp_all add: well_configured_def)
  have iw: "1 \<le> ?iw" "1 \<le> ?ih" by simp_all
  have tw: "1 \<le> ?tw" "1 \<le> ?th" using tiles_across_pos ts iw by blast+
  then have n1: "1 \<le> ?tw * ?th" by (smt (verit) mult_le_cancel_left1)
  have z: "width (params m) = 0 \<and> height (params m) = 0 \<Longrightarrow> ?tw * ?th = 1"
    using ts by (simp add: cdiv_def tiles_across_def)
  from gen_tiles_runs[OF assms(1), of uninit]
  obtain m1 where "gen_tiles uninit (\<not> background m) m = Some (?tw * ?th, m1)" by blast
  moreover from set_tiles_returns[OF assms(1), of uninit]
  obtain m' where "set_tiles uninit m = Some m'" "num_tiles (state m') = ?tw * ?th" by blast
  ultimately show ?thesis using n1 z by auto
qed

theorem set_tiles_zero_sized_witness:
  "\<exists>n m1 m'. gen_tiles unset_tile
       (\<not> background (the (TileManager_new BufferParams_zero 0 False 1 (64, 64) INT_MAX False
                              True TILE_CENTER 1 False)))
       (the (TileManager_new BufferParams_zero 0 False 1 (64, 64) INT_MAX False True
               TILE_CENTER 1 False)) = Some (n, m1)
     \<and> set_tiles unset_tile
         (the (TileManager_new BufferParams_zero 0 False 1 (64, 64) INT_MAX False True
                 TILE_CENTER 1 False)) = Some m'
     \<and> num_tiles (state m') = n \<and> 1 \<le> n \<and> n = 1"
proof -
  let ?m = "the (TileManager_new BufferParams_zero 0 False 1 (64, 64) INT_MAX False True
                   TILE_CENTER 1 False)"
  have a: "well_configured ?m" by code_simp
  have b: "width (params ?m) = 0 \<and> height (params ?m) = 0" by code_simp
  from b have c: "width (params ?m) = 0 \<or> height (params ?m) = 0" by simp
  from set_tiles_zero_sized[OF a c, of unset_tile] b show ?thesis by simp
qed

section \<open>Progressive preview\<close>

lemma gen_frame_same_setup: "gen_frame m m' \<Longrightarrow> same_setup m m'"
  using gen_frame_fields[of m m'] by (simp add: same_setup_def)

lemma next_preview:
  assumes wc: "well_configured m" and pr: "progressive m"
    and d: "1 < resolution_divider (state m)"
  shows "\<exists>m'. TileManager_next uninit m = Some (True, m') \<and> same_setup m m'
           \<and> resolution_divider (state m') = resolution_divider (state m) div 2
           \<and> sample (state m') = 0 \<and> state_num_samples (state m') = 1
           \<and> well_configured m'"
proof -
  let ?m1 = "m\<lparr>state := (state m)\<lparr>sample := 0,
                 resolution_divider := cdiv (resolution_divider (state m)) 2,
                 state_num_samples := 1\<rparr>\<rparr>"
  have c: "cdiv (resolution_divider (state m)) 2 = resolution_divider (state m) div 2"
    using d by (simp add: cdiv_nonneg)
  have "1 \<le> resolution_divider (state m) div 2" using d by (simp add: div_ge_one)
  then have wc1: "well_configured ?m1" using wc c by (simp add: well_configured_def)
  from set_tiles_returns[OF wc1, of uninit]
  obtain m' where m': "set_tiles uninit ?m1 = Some m'" "gen_frame ?m1 m'" by blast
  have nd: "\<not> TileManager_done m" using d by (simp add: TileManager_done_def)
  have "TileManager_next uninit m = Some (True, m')"
    using nd pr d m'(1) by (simp add: TileManager_next_def)
  moreover have "same_setup m m'" using gen_frame_same_setup[OF m'(2)] by (simp add: same_setup_def)
  moreover have "well_configured m'" using gen_frame_well_configured[OF m'(2) wc1] .
  ultimately show ?thesis using gen_frame_fields(15,16,17)[OF m'(2)] c by simp
qed

lemma next_sample:
  assumes wc: "well_configured m" and pr: "progressive m"
    and d: "resolution_divider (state m) = 1" and nd: "\<not> TileManager_done m"
  shows "\<exists>m'. TileManager_next uninit m = Some (True, m') \<and> same_setup m m'
           \<and> resolution_divider (state m') = 1
           \<and> sample (state m') = sample (state m) + 1 \<and> state_num_samples (state m') = 1
           \<and> well_configured m'"
proof -
  let ?m1 = "m\<lparr>state := (state m)\<lparr>sample := sample (state m) + 1,
                 state_num_samples := (if progressive m then 1
                                       else if range_num_samples m = -1 then num_samples m
                                       else range_num_samples m),
                 resolution_divider := 1\<rparr>\<rparr>"
  have wc1: "well_configured ?m1" using wc by (simp add: well_configured_def)
  from set_tiles_returns[OF wc1, of uninit]
  obtain m' where m': "set_tiles uninit ?m1 = Some m'" "gen_frame ?m1 m'" by blast
  have "TileManager_next uninit m = Some (True, m')"
    using nd pr d m'(1) by (simp add: TileManager_next_def)
  moreover have "same_setup m m'" using gen_frame_same_setup[OF m'(2)] by (simp add: same_setup_def)
  moreover have "well_configured m'" using gen_frame_well_configured[OF m'(2) wc1] .
  ultimately show ?thesis using gen_frame_fields(15,16,17)[OF m'(2)] pr by simp
qed

lemma phases_samples:
  assumes "well_configured m" "progressive m" "range_num_samples m = -1"
    "num_samples m = int N" "resolution_divider (state m) = 1"
    "sample (state m) = int s" "state_num_samples (state m) = 1" "N - Suc s \<le> n"
  shows "phases uninit n m = Some (map (\<lambda>i. (1, int i, 1)) [Suc s..<N])"
  using assms
proof (induction "N - Suc s" arbitrary: s m n)
  case 0
  then have "TileManager_done m" by (simp add: TileManager_done_def)
  then have "TileManager_next uninit m = Some (False, m)" by (simp add: TileManager_next_def)
  moreover have "[Suc s..<N] = []" using "0.hyps" by simp
  ultimately show ?case by (cases n) simp_all
next
  case (Suc k)
  then have lt: "Suc s < N" by simp
  then have nd: "\<not> TileManager_done m" using Suc.prems by (simp add: TileManager_done_def)
  from next_sample[OF Suc.prems(1,2,5) nd, of uninit]
  obtain m' where m': "TileManager_next uninit m = Some (True, m')" "same_setup m m'"
      "resolution_divider (state m') = 1" "sample (state m') = sample (state m) + 1"
      "state_num_samples (state m') = 1" "well_configured m'" by blast
  obtain n' where n': "n = Suc n'" using Suc.prems(8) Suc.hyps(2) by (cases n) auto
  have k: "k = N - Suc (Suc s)" using Suc.hyps(2) by simp
  have "phases uninit n' m' = Some (map (\<lambda>i. (1, int i, 1)) [Suc (Suc s)..<N])"
    using Suc.hyps(1)[OF k m'(6), of n'] m'(2-5) Suc.prems n' Suc.hyps(2)
    by (simp add: same_setup_def)
  moreover have "[Suc s..<N] = Suc s # [Suc (Suc s)..<N]" using lt by (simp add: upt_conv_Cons)
  ultimately show ?case using m'(1,3,4,5) n' Suc.prems(6) by simp
qed

lemma set_samples_setup:
  assumes "get_divider (width (params m)) (height (params m)) (start_resolution m) = Some d"
  shows "\<exists>m'. set_samples n m = Some m' \<and> same_setup (m\<lparr>num_samples := n\<rparr>) m'"
  using assms by (simp add: set_samples_def Let_def same_setup_def)

lemma reset_fields:
  assumes "get_divider (width p) (height p) (start_resolution m) = Some d"
  shows "\<exists>m'. reset buffer_init p n m = Some m'
            \<and> resolution_divider (state m') = d
            \<and> sample (state m') = range_start_sample m - 1
            \<and> state_num_samples (state m') = 0
            \<and> same_setup (m\<lparr>params := p, num_samples := n\<rparr>) m'"
proof -
  obtain m1 where m1: "set_samples n (m\<lparr>params := p\<rparr>) = Some m1"
      "same_setup (m\<lparr>params := p, num_samples := n\<rparr>) m1"
    using set_samples_setup[of "m\<lparr>params := p\<rparr>" d n] assms by auto
  with assms show ?thesis by (simp add: reset_def same_setup_def)
qed

lemma get_divider_512: "get_divider 512 512 64 = Some 8"
  by code_simp

text \<open>
  Claim C7, as stated, fails: after \<open>reset\<close> has set the divider to 8, the first call of
  \<open>next()\<close> already halves it, so the phases run at the dividers 4, 2, 1 and no phase
  runs at 8.  Here with \<open>num_samples = 4\<close>: each phase as (divider, sample, samples).
\<close>

theorem progressive_staging_counterexample:
  "(TileManager_new BufferParams_zero 0 True 4 (256, 256) 64 False False TILE_CENTER 1 False
      \<bind> reset BufferParams_zero (image_params 512 512) 4
      \<bind> phases unset_tile 10)
   = Some [(4, 0, 1), (2, 0, 1), (1, 0, 1), (1, 1, 1), (1, 2, 1), (1, 3, 1)]"
  by code_simp

text \<open>
  Claim C7, amended.  With \<open>progressive\<close>, \<open>start_resolution = 64\<close>, no sample range, any
  tile order (the Hilbert spiral in background mode, where \<open>gen_tiles\<close> accepts it) and a
  512 x 512 image, \<open>reset\<close> sets the divider to 8; the
  successive calls of \<open>next()\<close> then start one phase each at the dividers 4, 2 and 1, with
  \<open>sample = 0\<close> and one sample, then one phase with one sample at divider 1 for each
  \<open>sample = 1, \<dots>, num_samples - 1\<close>, and after that \<open>next()\<close> returns false (any larger
  number \<open>n\<close> of calls starts the same phases).
\<close>

theorem progressive_staging:
  assumes "progressive m" "start_resolution m = 64" "range_num_samples m = -1"
    and "1 \<le> fst (tile_size m)" "1 \<le> snd (tile_size m)"
    and "if preserve_tile_device m then 1 \<le> num_devices m else True"
    and "if tile_order m = TILE_HILBERT_SPIRAL then background m else True"
    and "width p = 512" "height p = 512" "N + 3 \<le> n"
  shows "\<exists>m0. reset buffer_init p (int N) m = Some m0 \<and> resolution_divider (state m0) = 8
           \<and> phases uninit n m0
               = Some ([(4, 0, 1), (2, 0, 1), (1, 0, 1)] @ map (\<lambda>i. (1, int i, 1)) [1..<N])"
proof -
  have "get_divider (width p) (height p) (start_resolution m) = Some 8"
    using assms(2,8,9) get_divider_512 by simp
  from reset_fields[OF this, of buffer_init "int N"]
  obtain m0 where m0: "reset buffer_init p (int N) m = Some m0"
      "resolution_divider (state m0) = 8"
      "same_setup (m\<lparr>params := p, num_samples := int N\<rparr>) m0"
    by auto
  have s0: "progressive m0" "range_num_samples m0 = -1" "num_samples m0 = int N"
    using m0(3) assms(1,3) by (simp_all add: same_setup_def)
  have wc0: "well_configured m0"
    using m0(2,3) assms(4-7) by (simp add: well_configured_def same_setup_def)
  from next_preview[OF wc0 s0(1), of uninit] m0(2)
  obtain m1 where m1: "TileManager_next uninit m0 = Some (True, m1)" "same_setup m0 m1"
      "resolution_divider (state m1) = 4" "sample (state m1) = 0"
      "state_num_samples (state m1) = 1" "well_configured m1" by auto
  have s1: "progressive m1" "range_num_samples m1 = -1" "num_samples m1 = int N"
    using m1(2) s0 by (simp_all add: same_setup_def)
  from next_preview[OF m1(6) s1(1), of uninit] m1(3)
  obtain m2 where m2: "TileManager_next uninit m1 = Some (True, m2)" "same_setup m1 m2"
      "resolution_divider (state m2) = 2" "sample (state m2) = 0"
      "state_num_samples (state m2) = 1" "well_configured m2" by auto
  have s2: "progressive m2" "range_num_samples m2 = -1" "num_samples m2 = int N"
    using m2(2) s1 by (simp_all add: same_setup_def)
  from next_preview[OF m2(6) s2(1), of uninit] m2(3)
  obtain m3 where m3: "TileManager_next uninit m2 = Some (True, m3)" "same_setup m2 m3"
      "resolution_divider (state m3) = 1" "sample (state m3) = 0"
      "state_num_samples (state m3) = 1" "well_configured m3" by auto
  have s3: "progressive m3" "range_num_samples m3 = -1" "num_samples m3 = int N"
    using m3(2) s2 by (simp_all add: same_setup_def)
  define n' where "n' = n - 3"
  have n': "n = Suc (Suc (Suc n'))" "N \<le> n'" using assms(10) by (simp_all add: n'_def)
  have "phases uninit n' m3 = Some (map (\<lambda>i. (1, int i, 1)) [Suc 0..<N])"
    using phases_samples[OF m3(6) s3(1,2,3) m3(3) _ m3(5), of 0 n' uninit] m3(4) n'(2)
    by simp
  then have "phases uninit n m0
      = Some ([(4, 0, 1), (2, 0, 1), (1, 0, 1)] @ map (\<lambda>i. (1, int i, 1)) [1..<N])"
    using n'(1) m1(1,3,4,5) m2(1,3,4,5) m3(1,3,4,5) by simp
  then show ?thesis using m0(1,2) by blast
qed

theorem progressive_staging_witness:
  "\<exists>m0. reset BufferParams_zero (image_params 512 512) (int 4)
           (TileManager_members BufferParams_zero 0 True 4 (256, 256) 64 False False
              TILE_CENTER 1 False) = Some m0
         \<and> resolution_divider (state m0) = 8
         \<and> phases unset_tile 10 m0
             = Some ([(4, 0, 1), (2, 0, 1), (1, 0, 1)] @ map (\<lambda>i. (1, int i, 1)) [1..<4])"
  using progressive_staging[of
      "TileManager_members BufferParams_zero 0 True 4 (256, 256) 64 False False TILE_CENTER 1 False"
      "image_params 512 512" 4 10 BufferParams_zero unset_tile]
  by (simp add: TileManager_members_def image_params_def)

section \<open>Scenarios\<close>

text \<open>
  Claim C1 on the code.  In the viewport scenario both slices write the tiles 0 to 3 (the
  index \<open>tile_y * tile_w + tile_x\<close> restarts in each slice), so after \<open>set_tiles\<close> both
  queues hold the indices 0 to 3, the tiles 0 to 3 are those of the upper slice
  (\<open>y = 20\<close>), and the tile that \<open>next_tile\<close> hands to device 0 has \<open>y = 20\<close>.
\<close>

theorem viewport_slices_overwritten:
  "map_option (render_tiles \<circ> state) viewport_scenario = Some [[0, 1, 2, 3], [0, 1, 2, 3]]
   \<and> map_option (map t_y \<circ> tiles \<circ> state) viewport_scenario = Some [20, 20, 20, 20, 0, 0, 0, 0]
   \<and> map_option fst (viewport_scenario \<bind> next_tile 0) = Some (Some 0)
   \<and> map_option t_y (handed_out (viewport_scenario \<bind> next_tile 0)) = Some 20"
  by code_simp

text \<open>
  Claim C4 on the code.  Five tiles for two devices make chunks of three and two tiles; the
  sort runs when a chunk is full, so the queue of device 1 keeps the order of generation,
  \<open>[3, 4]\<close>, although the comparator of \<open>TILE_RIGHT_TO_LEFT\<close> puts tile 4 before tile 3.
\<close>

theorem last_chunk_unsorted:
  "map_option (render_tiles \<circ> state) chunk_scenario = Some [[2, 1, 0], [3, 4]]
   \<and> map_option (map t_x \<circ> tiles \<circ> state) chunk_scenario = Some [0, 32, 64, 96, 128]
   \<and> map_option (\<lambda>m. TileComparator TILE_RIGHT_TO_LEFT (80, 16) (tiles (state m)) 4 3)
        chunk_scenario = Some True
   \<and> map_option (\<lambda>m. sorted_by (TileComparator TILE_RIGHT_TO_LEFT (80, 16) (tiles (state m)))
                       (render_tiles (state m) ! 1)) chunk_scenario = Some False"
  by code_simp

section \<open>Returning rendered tiles in the 3 x 3 grid\<close>

lemma grid3_tile:
  assumes "grid3 m" "i < 9"
  shows "t_x (tiles (state m) ! i) = 64 * int (i mod 3)"
    "t_y (tiles (state m) ! i) = 64 * int (i div 3)"
    "t_device (tiles (state m) ! i) = 0"
    "tile_at m (int i) = Some (tiles (state m) ! i)"
proof -
  from assms(1) have "\<forall>i\<in>set [0..<9]. t_x (tiles (state m) ! i) = 64 * int (i mod 3)
                      \<and> t_y (tiles (state m) ! i) = 64 * int (i div 3)
                      \<and> t_device (tiles (state m) ! i) = 0"
    unfolding grid3_def list_all_iff by blast
  with assms(2) show "t_x (tiles (state m) ! i) = 64 * int (i mod 3)"
    "t_y (tiles (state m) ! i) = 64 * int (i div 3)"
    "t_device (tiles (state m) ! i) = 0" by simp_all
  from assms show "tile_at m (int i) = Some (tiles (state m) ! i)"
    by (simp add: grid3_def tile_at_def)
qed

lemma nbr_less: "nbr i n = Some j \<Longrightarrow> j < 9"
  by (simp add: nbr_def Let_def split: if_splits) linarith

lemma nbr_int: "nbr i n = Some j \<Longrightarrow>
    int j = (int (i div 3) + dy ! n) * 3 + (int (i mod 3) + dx ! n)"
  by (auto simp: nbr_def Let_def split: if_splits)

lemma cdiv_64: "cdiv (64 * int k) 64 = int k"
  by (simp add: cdiv_nonneg)

lemma neighbors_at_least_grid3:
  assumes g: "grid3 m" and i: "i < 9"
  shows "neighbors_at_least lim 3 3 (int i) ns m =
     Some (list_all (\<lambda>j. TileState_value lim \<le> TileState_value (tile_state_of m j))
             (List.map_filter (nbr i) ns))"
proof (induction ns)
  case Nil
  then show ?case by (simp add: List.map_filter_simps)
next
  case (Cons nn ns)
  have ts: "tile_size m = (64, 64)" "tile_stride (state m) = 3" using g by (simp_all add: grid3_def)
  show ?case
  proof (cases "nbr i nn")
    case None
    then have "int (i mod 3) + dx ! nn < 0 \<or> int (i div 3) + dy ! nn < 0
        \<or> int (i mod 3) + dx ! nn \<ge> 3 \<or> int (i div 3) + dy ! nn \<ge> 3"
      by (simp add: nbr_def Let_def split: if_splits)
    then show ?thesis using Cons None grid3_tile[OF g i] ts
      by (simp add: List.map_filter_simps cdiv_64 Let_def)
  next
    case (Some j)
    then have ing: "\<not> (int (i mod 3) + dx ! nn < 0 \<or> int (i div 3) + dy ! nn < 0
        \<or> int (i mod 3) + dx ! nn \<ge> 3 \<or> int (i div 3) + dy ! nn \<ge> 3)"
      by (simp add: nbr_def Let_def split: if_splits)
    have j: "j < 9" using Some by (rule nbr_less)
    have ji: "(int (i div 3) + dy ! nn) * 3 + (int (i mod 3) + dx ! nn) = int j"
      using nbr_int[OF Some] by simp
    show ?thesis using Cons Some grid3_tile[OF g i] grid3_tile(4)[OF g j] ts ing
      by (simp add: List.map_filter_simps cdiv_64 Let_def ji tile_state_of_def not_less
          del: distrib_right_numeral distrib_left_numeral)
  qed
qed

lemma return_tile_render_neighbor_grid3:
  assumes g: "grid3 m" and i: "idx < 9"
  shows "return_tile_render_neighbor 3 3 (int idx) n m =
     Some (case nbr idx n of None \<Rightarrow> m
           | Some j \<Rightarrow>
               if tile_state_of m j = RENDERED
                  \<and> list_all (\<lambda>k. tile_state_of m k \<noteq> RENDER) (List.map_filter (nbr j) [0..<8])
               then promote j m else m)"
proof (cases "nbr idx n")
  case None
  then have "int (idx mod 3) + dx ! n < 0 \<or> int (idx div 3) + dy ! n < 0
        \<or> int (idx mod 3) + dx ! n \<ge> 3 \<or> int (idx div 3) + dy ! n \<ge> 3"
    by (simp add: nbr_def Let_def split: if_splits)
  then show ?thesis using None grid3_tile[OF g i] g
    by (simp add: return_tile_render_neighbor_def grid3_def cdiv_64 Let_def)
next
  case (Some j)
  then have ing: "\<not> (int (idx mod 3) + dx ! n < 0 \<or> int (idx div 3) + dy ! n < 0
        \<or> int (idx mod 3) + dx ! n \<ge> 3 \<or> int (idx div 3) + dy ! n \<ge> 3)"
    by (simp add: nbr_def Let_def split: if_splits)
  have j: "j < 9" using Some by (rule nbr_less)
  have ji: "(int (idx div 3) + dy ! n) * 3 + (int (idx mod 3) + dx ! n) = int j"
    using nbr_int[OF Some] by simp
  have v: "\<And>s. (1 \<le> TileState_value s) = (s \<noteq> RENDER)" by (case_tac s) simp_all
  have na: "neighbors_at_least RENDERED 3 3 (int j) [0..<8] m =
      Some (list_all (\<lambda>k. tile_state_of m k \<noteq> RENDER) (List.map_filter (nbr j) [0..<8]))"
    using neighbors_at_least_grid3[OF g j, of RENDERED "[0..<8]"] by (simp add: v)
  have len: "length (tiles (state m)) = 9" "length (denoise_tiles (state m)) = 1"
    "tile_size m = (64, 64)" "tile_stride (state m) = 3"
    using g by (simp_all add: grid3_def)
  show ?thesis
    unfolding return_tile_render_neighbor_def
    using Some grid3_tile[OF g i] grid3_tile[OF g j] len ing j
    by (simp add: cdiv_64 Let_def ji na tile_state_of_def tile_update_def tile_at_def
        denoise_push_back_def promote_def del: distrib_right_numeral distrib_left_numeral)
qed

lemma in_set_map_filter: "k \<in> set (List.map_filter f xs) \<longleftrightarrow> (\<exists>x\<in>set xs. f x = Some k)"
  by (induction xs) (auto split: option.splits)

lemma eligible_cong:
  assumes "\<And>k. k < 9 \<Longrightarrow> (s k \<noteq> RENDER) = (s' k \<noteq> RENDER)"
  shows "eligible s j = eligible s' j"
proof -
  have "\<And>k. k \<in> set (List.map_filter (nbr j) [0..<8]) \<Longrightarrow> k < 9"
    by (auto simp: in_set_map_filter dest: nbr_less)
  then show ?thesis using assms unfolding eligible_def list_all_iff by blast
qed

lemma promote_state:
  assumes "length (tiles (state m)) = 9" "j < 9" "i < 9"
  shows "tile_state_of (promote j m) i = (if i = j then DENOISE else tile_state_of m i)"
  using assms by (simp add: promote_def tile_state_of_def nth_list_update)

lemma promote_grid3:
  assumes "grid3 m" "j < 9"
  shows "grid3 (promote j m)"
  using assms unfolding grid3_def list_all_iff
  by (auto simp: promote_def nth_list_update)

lemma promote_queue_ok:
  assumes g: "grid3 m" and q: "queue_ok m" and j: "j < 9" and s: "tile_state_of m j \<noteq> DENOISE"
  shows "queue_ok (promote j m)"
proof -
  have len: "length (tiles (state m)) = 9" "length (denoise_tiles (state m)) = 1"
    using g by (simp_all add: grid3_def)
  let ?q = "denoise_tiles (state m) ! 0"
  have q': "denoise_tiles (state (promote j m)) ! 0 = ?q @ [int j]"
    using len by (simp add: promote_def)
  have "int j \<notin> set ?q" using q s by (auto simp: queue_ok_def)
  then have d: "distinct (?q @ [int j])" using q by (simp add: queue_ok_def)
  have "{i. i < 9 \<and> tile_state_of (promote j m) i = DENOISE}
      = insert j {i. i < 9 \<and> tile_state_of m i = DENOISE}"
    using promote_state[OF len(1) j] j by auto
  then have "set (?q @ [int j]) = int ` {i. i < 9 \<and> tile_state_of (promote j m) i = DENOISE}"
    using q by (simp add: queue_ok_def)
  with d q' show ?thesis by (simp add: queue_ok_def)
qed

lemma scan_step:
  assumes g: "grid3 m" and q: "queue_ok m" and idx: "idx < 9"
  shows "\<exists>m'. return_tile_render_neighbor 3 3 (int idx) n m = Some m' \<and> grid3 m' \<and> queue_ok m'
     \<and> (\<forall>i<9. tile_state_of m' i =
          (if nbr idx n = Some i \<and> tile_state_of m i = RENDERED \<and> eligible (tile_state_of m) i
           then DENOISE else tile_state_of m i))"
proof (cases "nbr idx n")
  case None
  then show ?thesis using return_tile_render_neighbor_grid3[OF g idx, of n] g q by simp
next
  case (Some j)
  then have j: "j < 9" by (rule nbr_less)
  have len: "length (tiles (state m)) = 9" using g by (simp add: grid3_def)
  show ?thesis
  proof (cases "tile_state_of m j = RENDERED \<and> eligible (tile_state_of m) j")
    case True
    then have r: "return_tile_render_neighbor 3 3 (int idx) n m = Some (promote j m)"
      using return_tile_render_neighbor_grid3[OF g idx, of n] Some by (simp add: eligible_def)
    have "tile_state_of m j \<noteq> DENOISE" using True by simp
    then have "queue_ok (promote j m)" using promote_queue_ok[OF g q j] by simp
    moreover have "grid3 (promote j m)" using promote_grid3[OF g j] .
    moreover have "\<forall>i<9. tile_state_of (promote j m) i =
          (if nbr idx n = Some i \<and> tile_state_of m i = RENDERED \<and> eligible (tile_state_of m) i
           then DENOISE else tile_state_of m i)"
      using promote_state[OF len j] Some True by auto
    ultimately show ?thesis using r by simp
  next
    case False
    then have r: "return_tile_render_neighbor 3 3 (int idx) n m = Some m"
      using return_tile_render_neighbor_grid3[OF g idx, of n] Some by (auto simp: eligible_def)
    show ?thesis using r g q Some False by auto
  qed
qed

lemma scan:
  assumes "grid3 m" "queue_ok m" "idx < 9"
  shows "\<exists>m'. foldM (return_tile_render_neighbor 3 3 (int idx)) ns m = Some m'
     \<and> grid3 m' \<and> queue_ok m'
     \<and> (\<forall>i<9. tile_state_of m' i =
          (if (\<exists>n\<in>set ns. nbr idx n = Some i) \<and> tile_state_of m i = RENDERED
              \<and> eligible (tile_state_of m) i
           then DENOISE else tile_state_of m i))"
  using assms
proof (induction ns arbitrary: m)
  case Nil
  then show ?case by simp
next
  case (Cons n ns)
  from scan_step[OF Cons.prems, of n]
  obtain m1 where m1: "return_tile_render_neighbor 3 3 (int idx) n m = Some m1" "grid3 m1"
      "queue_ok m1"
      "\<forall>i<9. tile_state_of m1 i =
          (if nbr idx n = Some i \<and> tile_state_of m i = RENDERED \<and> eligible (tile_state_of m) i
           then DENOISE else tile_state_of m i)"
    by blast
  from Cons.IH[OF m1(2,3) Cons.prems(3)]
  obtain m' where m': "foldM (return_tile_render_neighbor 3 3 (int idx)) ns m1 = Some m'"
      "grid3 m'" "queue_ok m'"
      "\<forall>i<9. tile_state_of m' i =
          (if (\<exists>n\<in>set ns. nbr idx n = Some i) \<and> tile_state_of m1 i = RENDERED
              \<and> eligible (tile_state_of m1) i
           then DENOISE else tile_state_of m1 i)"
    by blast
  have el: "\<And>j. eligible (tile_state_of m1) j = eligible (tile_state_of m) j"
    by (rule eligible_cong) (use m1(4) in auto)
  have "\<forall>i<9. tile_state_of m' i =
          (if (\<exists>n\<in>set (n # ns). nbr idx n = Some i) \<and> tile_state_of m i = RENDERED
              \<and> eligible (tile_state_of m) i
           then DENOISE else tile_state_of m i)"
  proof (intro allI impI)
    fix i :: nat assume i: "i < 9"
    show "tile_state_of m' i =
          (if (\<exists>n\<in>set (n # ns). nbr idx n = Some i) \<and> tile_state_of m i = RENDERED
              \<and> eligible (tile_state_of m) i
           then DENOISE else tile_state_of m i)"
      using m1(4)[rule_format, OF i] m'(4)[rule_format, OF i] el[of i] by auto
  qed
  then show ?case using m1(1) m' by simp
qed

lemma near_table:
  "list_all (\<lambda>i. near i i \<and> list_all (\<lambda>j. near i j = near j i
        \<and> near i j = (j = i \<or> j \<in> set (List.map_filter (nbr i) [0..<8]))) [0..<9]) [0..<9]"
  by code_simp

lemma near_refl: "i < 9 \<Longrightarrow> near i i"
  using near_table unfolding list_all_iff by simp

lemma near_sym: "i < 9 \<Longrightarrow> j < 9 \<Longrightarrow> near i j = near j i"
  using near_table unfolding list_all_iff by simp

lemma near_eight: "i < 9 \<Longrightarrow> j < 9 \<Longrightarrow>
    near i j = (j = i \<or> j \<in> set (List.map_filter (nbr i) [0..<8]))"
  using near_table unfolding list_all_iff by simp

lemma near_nbr: "near i j = (\<exists>n\<in>set [0..<9]. nbr i n = Some j)"
  by (simp only: near_def in_set_map_filter)

lemma return_tile_grid3:
  assumes g: "grid3 m" and q: "queue_ok m" and idx: "idx < 9"
    and r: "tile_state_of m idx = RENDER"
  shows "\<exists>res m'. return_tile (int idx) m = Some (res, m') \<and> grid3 m' \<and> queue_ok m'
     \<and> (\<forall>i<9. tile_state_of m' i =
          (if near idx i \<and> ((tile_state_of m)(idx := RENDERED)) i = RENDERED
              \<and> eligible ((tile_state_of m)(idx := RENDERED)) i
           then DENOISE else ((tile_state_of m)(idx := RENDERED)) i))"
proof -
  let ?s1 = "(tile_state_of m)(idx := RENDERED)"
  let ?m1 = "m\<lparr>state := (state m)\<lparr>tiles :=
      (tiles (state m))[idx := (tiles (state m) ! idx)\<lparr>t_state := RENDERED\<rparr>]\<rparr>\<rparr>"
  have len: "length (tiles (state m)) = 9" using g by (simp add: grid3_def)
  have u: "tile_update (int idx) (\<lambda>t. t\<lparr>t_state := RENDERED\<rparr>) m = Some ?m1"
    using idx len by (simp add: tile_update_def)
  have s1: "\<And>i. i < 9 \<Longrightarrow> tile_state_of ?m1 i = ?s1 i"
    using len idx by (simp add: tile_state_of_def nth_list_update)
  have g1: "grid3 ?m1" using g idx unfolding grid3_def list_all_iff
    by (auto simp: nth_list_update)
  have "{i. i < 9 \<and> tile_state_of ?m1 i = DENOISE} = {i. i < 9 \<and> tile_state_of m i = DENOISE}"
    using s1 r by (auto split: if_splits)
  then have q1: "queue_ok ?m1" using q by (simp add: queue_ok_def)
  from scan[OF g1 q1 idx, of "[0..<9]"]
  obtain m' where m': "foldM (return_tile_render_neighbor 3 3 (int idx)) [0..<9] ?m1 = Some m'"
      "grid3 m'" "queue_ok m'"
      "\<forall>i<9. tile_state_of m' i =
          (if (\<exists>n\<in>set [0..<9]. nbr idx n = Some i) \<and> tile_state_of ?m1 i = RENDERED
              \<and> eligible (tile_state_of ?m1) i
           then DENOISE else tile_state_of ?m1 i)"
    by blast
  have el: "\<And>j. eligible (tile_state_of ?m1) j = eligible ?s1 j"
    by (rule eligible_cong) (simp add: s1)
  have st: "\<forall>i<9. tile_state_of m' i =
          (if near idx i \<and> ?s1 i = RENDERED \<and> eligible ?s1 i then DENOISE else ?s1 i)"
  proof (intro allI impI)
    fix i :: nat assume i: "i < 9"
    have "tile_state_of m' i =
          (if (\<exists>n\<in>set [0..<9]. nbr idx n = Some i) \<and> tile_state_of ?m1 i = RENDERED
              \<and> eligible (tile_state_of ?m1) i
           then DENOISE else tile_state_of ?m1 i)"
      using m'(4) i by blast
    then show "tile_state_of m' i =
          (if near idx i \<and> ?s1 i = RENDERED \<and> eligible ?s1 i then DENOISE else ?s1 i)"
      unfolding s1[OF i] el near_nbr .
  qed
  have cfg: "tile_size m = (64, 64)" "width (params m) = 192" "height (params m) = 192"
    "resolution_divider (state m) = 1" "schedule_denoising m" "\<not> only_denoise m"
    using g by (simp_all add: grid3_def)
  have ta: "tile_at m (int idx) = Some (tiles (state m) ! idx)" using grid3_tile(4)[OF g idx] .
  have "return_tile (int idx) m = Some ((False, False), m')"
    unfolding return_tile_def
    using cfg ta r u m'(1) by (simp add: Let_def cdiv_def tile_state_of_def)
  then show ?thesis using m'(2,3) st by blast
qed

lemma return_tile_inv:
  assumes inv: "returned_inv S m" and idx: "idx < 9" "idx \<notin> S"
  shows "\<exists>res m'. return_tile (int idx) m = Some (res, m') \<and> returned_inv (insert idx S) m'"
proof -
  from inv have g: "grid3 m" and q: "queue_ok m"
    and st: "\<And>i. i < 9 \<Longrightarrow> tile_state_of m i =
            (if i \<notin> S then RENDER
             else if (\<forall>j<9. near i j \<longrightarrow> j \<in> S) then DENOISE else RENDERED)"
    by (simp_all add: returned_inv_def)
  have r: "tile_state_of m idx = RENDER" using st[OF idx(1)] idx(2) by simp
  let ?s1 = "(tile_state_of m)(idx := RENDERED)"
  let ?S = "insert idx S"
  from return_tile_grid3[OF g q idx(1) r]
  obtain res m' where m': "return_tile (int idx) m = Some (res, m')" "grid3 m'" "queue_ok m'"
      "\<And>i. i < 9 \<Longrightarrow> tile_state_of m' i =
          (if near idx i \<and> ?s1 i = RENDERED \<and> eligible ?s1 i then DENOISE else ?s1 i)"
    by blast
  have in_S: "\<And>k. k < 9 \<Longrightarrow> (?s1 k \<noteq> RENDER) = (k \<in> ?S)"
    using st by auto
  have el: "\<And>i. i < 9 \<Longrightarrow> eligible ?s1 i = (\<forall>k\<in>set (List.map_filter (nbr i) [0..<8]). k \<in> ?S)"
  proof -
    fix i :: nat assume "i < 9"
    have "\<And>k. k \<in> set (List.map_filter (nbr i) [0..<8]) \<Longrightarrow> k < 9"
      by (auto simp: in_set_map_filter dest: nbr_less)
    then show "eligible ?s1 i = (\<forall>k\<in>set (List.map_filter (nbr i) [0..<8]). k \<in> ?S)"
      unfolding eligible_def list_all_iff using in_S by blast
  qed
  have full: "\<And>i. i < 9 \<Longrightarrow>
      (\<forall>j<9. near i j \<longrightarrow> j \<in> ?S) = (i \<in> ?S \<and> eligible ?s1 i)"
  proof -
    fix i :: nat assume i: "i < 9"
    have "\<And>k. k \<in> set (List.map_filter (nbr i) [0..<8]) \<Longrightarrow> k < 9"
      by (auto simp: in_set_map_filter dest: nbr_less)
    then show "(\<forall>j<9. near i j \<longrightarrow> j \<in> ?S) = (i \<in> ?S \<and> eligible ?s1 i)"
      unfolding el[OF i] using near_eight[OF i] i by blast
  qed
  have "\<forall>i<9. tile_state_of m' i =
            (if i \<notin> ?S then RENDER
             else if (\<forall>j<9. near i j \<longrightarrow> j \<in> ?S) then DENOISE else RENDERED)"
  proof (intro allI impI)
    fix i :: nat assume i: "i < 9"
    show "tile_state_of m' i =
            (if i \<notin> ?S then RENDER
             else if (\<forall>j<9. near i j \<longrightarrow> j \<in> ?S) then DENOISE else RENDERED)"
    proof (cases "i \<in> ?S")
      case False
      then have "?s1 i = RENDER" using st[OF i] by auto
      then show ?thesis using m'(4)[OF i] False by simp
    next
      case inS: True
      show ?thesis
      proof (cases "\<forall>j<9. near i j \<longrightarrow> j \<in> ?S")
        case fullS': True
        then have e: "eligible ?s1 i" using full[OF i] by simp
        show ?thesis
        proof (cases "i \<in> S \<and> (\<forall>j<9. near i j \<longrightarrow> j \<in> S)")
          case True
          then have "i \<noteq> idx" using idx(2) by auto
          then have "?s1 i = DENOISE" using st[OF i] True by simp
          then show ?thesis using m'(4)[OF i] inS fullS' by simp
        next
          case False
          have ni: "near idx i"
          proof (cases "i = idx")
            case True
            then show ?thesis using near_refl[OF idx(1)] by simp
          next
            case False
            with inS \<open>\<not> (i \<in> S \<and> (\<forall>j<9. near i j \<longrightarrow> j \<in> S))\<close>
            obtain j where "j < 9" "near i j" "j \<notin> S" by auto
            with fullS' have "j = idx" by auto
            with \<open>near i j\<close> show ?thesis using near_sym[OF i idx(1)] by simp
          qed
          have "?s1 i = RENDERED" using st[OF i] False inS by auto
          then show ?thesis using m'(4)[OF i] ni e inS fullS' by simp
        qed
      next
        case notfull: False
        then have ne: "\<not> eligible ?s1 i" using full[OF i] inS by blast
        have "\<not> (\<forall>j<9. near i j \<longrightarrow> j \<in> S)" using notfull by auto
        then have "?s1 i = RENDERED" using st[OF i] inS by auto
        then show ?thesis using m'(4)[OF i] ne inS notfull by simp
      qed
    qed
  qed
  then show ?thesis using m'(1,2,3) by (auto simp: returned_inv_def)
qed

lemma return_tiles_inv:
  assumes "returned_inv S m" "distinct order" "\<forall>k\<in>set order. k < 9 \<and> k \<notin> S"
  shows "\<exists>m'. return_tiles (map int order) m = Some m' \<and> returned_inv (S \<union> set order) m'"
  using assms
proof (induction order arbitrary: S m)
  case Nil
  then show ?case by simp
next
  case (Cons k order)
  then have k: "k < 9" "k \<notin> S" by simp_all
  from return_tile_inv[OF Cons.prems(1) k]
  obtain res m1 where m1: "return_tile (int k) m = Some (res, m1)" "returned_inv (insert k S) m1"
    by blast
  have "\<forall>j\<in>set order. j < 9 \<and> j \<notin> insert k S" using Cons.prems(2,3) by auto
  from Cons.IH[OF m1(2) _ this] Cons.prems(2)
  obtain m' where "return_tiles (map int order) m1 = Some m'"
      "returned_inv (insert k S \<union> set order) m'" by auto
  then show ?case using m1(1) by simp
qed

lemma denoise_scenario_start:
  "\<exists>m0. denoise_scenario = Some m0 \<and> returned_inv {} m0"
proof -
  have a: "denoise_scenario \<noteq> None" by code_simp
  then obtain m0 where m0: "denoise_scenario = Some m0" by blast
  have "grid3 (the denoise_scenario)" by code_simp
  then have g: "grid3 m0" using m0 by (metis option.sel)
  have "list_all (\<lambda>i. tile_state_of (the denoise_scenario) i = RENDER) [0..<9]" by code_simp
  then have "list_all (\<lambda>i. tile_state_of m0 i = RENDER) [0..<9]" using m0 by (metis option.sel)
  then have s: "\<forall>i<9. tile_state_of m0 i = RENDER" unfolding list_all_iff by simp
  have "denoise_tiles (state (the denoise_scenario)) = [[]]" by code_simp
  then have "denoise_tiles (state m0) = [[]]" using m0 by (metis option.sel)
  then have q: "queue_ok m0" using s by (simp add: queue_ok_def)
  have "returned_inv {} m0" using g q s by (simp add: returned_inv_def)
  with m0 show ?thesis by blast
qed

text \<open>
  Claim C3, as stated, fails in its second part: a neighbour outside the grid does not
  block a tile, so the corner and edge tiles become ready for denoising as well.  After the
  nine tiles have been returned in the order 0, \<dots>, 8 the denoise queue holds all nine.
\<close>

theorem denoise_all_nine_counterexample:
  "map_option (denoise_tiles \<circ> state) (denoise_scenario \<bind> return_tiles [0, 1, 2, 3, 4, 5, 6, 7, 8])
     = Some [[0, 1, 2, 3, 6, 4, 5, 7, 8]]"
  by code_simp

text \<open>
  Claim C3, amended.  In the 3 x 3 scenario, returning the centre tile 4 while its eight
  neighbours are still in \<open>RENDER\<close> enqueues no denoise work; and after all nine tiles have
  been returned with \<open>return_tile\<close>, in any order, every one of the nine tiles is in state
  \<open>DENOISE\<close> and has been enqueued for denoising exactly once.
\<close>

theorem denoise_all_nine:
  assumes "mset order = mset (map int [0..<9])"
  shows "map_option (denoise_tiles \<circ> state) (denoise_scenario \<bind> return_tiles [4]) = Some [[]]
     \<and> (\<exists>m'. denoise_scenario \<bind> return_tiles order = Some m'
            \<and> mset (concat (denoise_tiles (state m'))) = mset (map int [0..<9])
            \<and> list_all (\<lambda>i. tile_state_of m' i = DENOISE) [0..<9])"
proof
  show "map_option (denoise_tiles \<circ> state) (denoise_scenario \<bind> return_tiles [4]) = Some [[]]"
    by code_simp
next
  obtain m0 where m0: "denoise_scenario = Some m0" "returned_inv {} m0"
    using denoise_scenario_start by blast
  define no where "no = map nat order"
  have so: "set order = int ` {0..<9}"
    using mset_eq_setD[OF assms] by simp
  then have "\<forall>k\<in>set order. 0 \<le> k" by auto
  then have o: "order = map int no" by (simp add: no_def map_idI)
  have "distinct order" using mset_eq_imp_distinct_iff[OF assms] by (simp add: distinct_map)
  then have d: "distinct no" unfolding o by (simp add: distinct_map)
  have sn: "set no = {0..<9}"
  proof -
    have "int ` set no = int ` {0..<9}" using so unfolding o by simp
    then show ?thesis by (simp add: inj_image_eq_iff)
  qed
  from return_tiles_inv[OF m0(2) d] sn
  obtain m' where m': "return_tiles (map int no) m0 = Some m'" "returned_inv {0..<9} m'"
    by auto
  from m'(2) have g: "grid3 m'" and q: "queue_ok m'"
    and st: "\<forall>i<9. tile_state_of m' i = DENOISE"
    by (auto simp: returned_inv_def)
  have len: "length (denoise_tiles (state m')) = 1" using g by (simp add: grid3_def)
  then obtain l where l: "denoise_tiles (state m') = [l]"
    by (cases "denoise_tiles (state m')") auto
  from q st l have "distinct l" "set l = int ` {0..<9}" by (auto simp: queue_ok_def)
  then have "mset l = mset (map int [0..<9])"
    by (intro set_eq_iff_mset_eq_distinct[THEN iffD1]) (simp_all add: distinct_map)
  then have "mset (concat (denoise_tiles (state m'))) = mset (map int [0..<9])" using l by simp
  moreover have "list_all (\<lambda>i. tile_state_of m' i = DENOISE) [0..<9]"
    using st by (simp add: list_all_iff)
  moreover have "denoise_scenario \<bind> return_tiles order = Some m'"
    unfolding m0(1) o using m'(1) by simp
  ultimately show "\<exists>m'. denoise_scenario \<bind> return_tiles order = Some m'
            \<and> mset (concat (denoise_tiles (state m'))) = mset (map int [0..<9])
            \<and> list_all (\<lambda>i. tile_state_of m' i = DENOISE) [0..<9]"
    by blast
qed

theorem denoise_all_nine_witness:
  "mset [4, 0, 8, 2, 6, 1, 3, 5, 7] = mset (map int [0..<9])
   \<and> map_option (denoise_tiles \<circ> state) (denoise_scenario \<bind> return_tiles [4]) = Some [[]]
   \<and> (\<exists>m'. denoise_scenario \<bind> return_tiles [4, 0, 8, 2, 6, 1, 3, 5, 7] = Some m'
          \<and> mset (concat (denoise_tiles (state m'))) = mset (map int [0..<9])
          \<and> list_all (\<lambda>i. tile_state_of m' i = DENOISE) [0..<9])"
proof -
  have h: "mset [4, 0, 8, 2, 6, 1, 3, 5, 7] = mset (map int [0..<9])" by code_simp
  from denoise_all_nine[OF h] h show ?thesis by blast
qed

section \<open>No tile is handed out twice\<close>

lemma distinct_mset_subset:
  assumes "mset xs \<subseteq># M" "\<And>a. count M a \<le> 1"
  shows "distinct xs"
proof -
  have "\<And>a. count (mset xs) a \<le> 1"
  proof -
    fix a
    have "count (mset xs) a \<le> count M a" using assms(1) by (rule mset_subset_eq_count)
    also have "\<dots> \<le> 1" using assms(2) .
    finally show "count (mset xs) a \<le> 1" .
  qed
  then have "\<And>a. count (mset xs) a = (if a \<in> set xs then 1 else 0)"
    by (metis count_mset_0_iff le_antisym less_one not_le_imp_less not_less_zero)
  then show ?thesis by (simp add: distinct_count_atmost_1)
qed

lemma mset_concat_pop:
  assumes "l < length xs" "xs ! l \<noteq> []"
  shows "mset (concat xs) = mset (concat (xs[l := tl (xs ! l)])) + {#hd (xs ! l)#}"
proof -
  have "mset (xs ! l) = mset (tl (xs ! l)) + {#hd (xs ! l)#}"
    using assms(2) by (cases "xs ! l") simp_all
  then show ?thesis using mset_concat_update[OF assms(1), of "tl (xs ! l)"] by simp
qed

lemma next_tile_queued:
  assumes len: "length (render_tiles (state m)) = length (denoise_tiles (state m))"
  shows "\<exists>r m'. next_tile dev m = Some (r, m')
     \<and> length (render_tiles (state m')) = length (denoise_tiles (state m'))
     \<and> queued m = queued m' + mset (List.map_filter (\<lambda>r. r) [r])"
proof -
  define l where "l = size_t_of_int (if preserve_tile_device m then dev else 0)"
  show ?thesis
  proof (cases "l \<ge> length (render_tiles (state m))")
    case True
    then have "next_tile dev m = Some (None, m)" by (simp add: next_tile_def l_def)
    then show ?thesis using len by simp
  next
    case False
    then have l: "l < length (render_tiles (state m))" "l < length (denoise_tiles (state m))"
      using len by simp_all
    show ?thesis
    proof (cases "denoise_tiles (state m) ! l \<noteq> []")
      case True
      let ?idx = "hd (denoise_tiles (state m) ! l)"
      let ?m1 = "m\<lparr>state := (state m)\<lparr>denoise_tiles :=
                       (denoise_tiles (state m))[l := tl (denoise_tiles (state m) ! l)]\<rparr>\<rparr>"
      let ?m2 = "if only_denoise ?m1
                 then ?m1\<lparr>state := (state ?m1)\<lparr>num_rendered_tiles :=
                             num_rendered_tiles (state ?m1) + 1\<rparr>\<rparr>
                 else ?m1"
      have r: "next_tile dev m = Some (Some ?idx, ?m2)"
        using l True by (simp add: next_tile_def l_def[symmetric] Let_def)
      have "queued m = queued ?m1 + {#?idx#}"
        using mset_concat_pop[OF l(2) True] by (simp add: queued_def)
      moreover have "queued ?m2 = queued ?m1" by (simp add: queued_def)
      moreover have "length (render_tiles (state ?m2)) = length (denoise_tiles (state ?m2))"
        using len by simp
      ultimately show ?thesis using r by simp
    next
      case dn: False
      show ?thesis
      proof (cases "render_tiles (state m) ! l = []")
        case True
        then have "next_tile dev m = Some (None, m)"
          using l dn by (simp add: next_tile_def l_def[symmetric] Let_def)
        then show ?thesis using len by simp
      next
        case False
        let ?idx = "hd (render_tiles (state m) ! l)"
        let ?m1 = "m\<lparr>state := (state m)\<lparr>render_tiles :=
                       (render_tiles (state m))[l := tl (render_tiles (state m) ! l)]\<rparr>\<rparr>"
        let ?m2 = "?m1\<lparr>state := (state ?m1)\<lparr>num_rendered_tiles :=
                                    num_rendered_tiles (state ?m1) + 1\<rparr>\<rparr>"
        have r: "next_tile dev m = Some (Some ?idx, ?m2)"
          using l dn False by (simp add: next_tile_def l_def[symmetric] Let_def)
        have "queued m = queued ?m1 + {#?idx#}"
          using mset_concat_pop[OF l(1) False] by (simp add: queued_def)
        moreover have "queued ?m2 = queued ?m1" by (simp add: queued_def)
        moreover have "length (render_tiles (state ?m2)) = length (denoise_tiles (state ?m2))"
          using len by simp
        ultimately show ?thesis using r by simp
      qed
    qed
  qed
qed

lemma next_tiles_queued:
  assumes "length (render_tiles (state m)) = length (denoise_tiles (state m))"
  shows "\<exists>rs m'. next_tiles devs m = Some (rs, m')
     \<and> queued m = queued m' + mset (List.map_filter (\<lambda>r. r) rs)"
  using assms
proof (induction devs arbitrary: m)
  case Nil
  then show ?case by simp
next
  case (Cons dev devs)
  from next_tile_queued[OF Cons.prems, of dev]
  obtain r m1 where m1: "next_tile dev m = Some (r, m1)"
      "length (render_tiles (state m1)) = length (denoise_tiles (state m1))"
      "queued m = queued m1 + mset (List.map_filter (\<lambda>r. r) [r])" by blast
  from Cons.IH[OF m1(2)]
  obtain rs m' where m': "next_tiles devs m1 = Some (rs, m')"
      "queued m1 = queued m' + mset (List.map_filter (\<lambda>r. r) rs)" by blast
  have "queued m = queued m' + mset (List.map_filter (\<lambda>r. r) (r # rs))"
    using m1(3) m'(2) by (cases r) simp_all
  then show ?case using m1(1) m'(1) by simp
qed

text \<open>Returning a tile, and handing one out, keep every tile at most once in the render
  queues and the tiles handed out from them, and likewise for the denoise queues.\<close>

lemma denoise_push_back_SomeD:
  "denoise_push_back dev j m = Some m' \<Longrightarrow>
   nat dev < length (denoise_tiles (state m))
   \<and> m' = m\<lparr>state := (state m)\<lparr>denoise_tiles :=
            (denoise_tiles (state m))[nat dev := denoise_tiles (state m) ! nat dev @ [j]]\<rparr>\<rparr>"
  by (auto simp add: denoise_push_back_def split: if_splits)

lemma tile_update_dispatch_inv:
  assumes u: "tile_update i f m = Some m'" and inv: "dispatch_inv m R D"
    and st: "i \<in># mset (concat (denoise_tiles (state m))) + D \<Longrightarrow>
             2 \<le> TileState_value (t_state (f (tiles (state m) ! nat i)))"
  shows "dispatch_inv m' R D"
proof -
  from tile_update_SomeD[OF u] have i: "0 \<le> i" "i < int (length (tiles (state m)))"
    and m': "m' = m\<lparr>state := (state m)\<lparr>tiles :=
               (tiles (state m))[nat i := f (tiles (state m) ! nat i)]\<rparr>\<rparr>" by simp_all
  have "\<And>j. j \<in># mset (concat (denoise_tiles (state m))) + D \<Longrightarrow>
          0 \<le> j \<and> j < int (length (tiles (state m')))
          \<and> 2 \<le> TileState_value (t_state (tiles (state m') ! nat j))"
  proof -
    fix j assume j: "j \<in># mset (concat (denoise_tiles (state m))) + D"
    then have r: "0 \<le> j" "j < int (length (tiles (state m)))"
        "2 \<le> TileState_value (t_state (tiles (state m) ! nat j))"
      using inv unfolding dispatch_inv_def by blast+
    show "0 \<le> j \<and> j < int (length (tiles (state m')))
          \<and> 2 \<le> TileState_value (t_state (tiles (state m') ! nat j))"
    proof (cases "j = i")
      case True
      then show ?thesis using r i st j by (simp add: m')
    next
      case False
      then have "nat j \<noteq> nat i" using r(1) i(1) by simp
      then show ?thesis using r by (simp add: m')
    qed
  qed
  then show ?thesis using inv unfolding dispatch_inv_def by (simp add: m')
qed

lemma denoise_push_back_dispatch_inv:
  assumes p: "denoise_push_back dev j m = Some m'" and inv: "dispatch_inv m R D"
    and new: "j \<notin># mset (concat (denoise_tiles (state m))) + D"
    and ok: "0 \<le> j" "j < int (length (tiles (state m)))"
      "2 \<le> TileState_value (t_state (tiles (state m) ! nat j))"
  shows "dispatch_inv m' R D"
proof -
  from denoise_push_back_SomeD[OF p] have d: "nat dev < length (denoise_tiles (state m))"
    and m': "m' = m\<lparr>state := (state m)\<lparr>denoise_tiles :=
            (denoise_tiles (state m))[nat dev := denoise_tiles (state m) ! nat dev @ [j]]\<rparr>\<rparr>"
    by simp_all
  have q: "mset (concat (denoise_tiles (state m'))) = mset (concat (denoise_tiles (state m))) + {#j#}"
    using mset_concat_update_append[OF d] by (simp add: m')
  have c: "count (mset (concat (denoise_tiles (state m))) + D) j = 0"
    using new by (simp add: not_in_iff)
  have "\<And>a. count (mset (concat (denoise_tiles (state m'))) + D) a \<le> 1"
  proof -
    fix a
    have "count (mset (concat (denoise_tiles (state m))) + D) a \<le> 1"
      using inv unfolding dispatch_inv_def by blast
    then show "count (mset (concat (denoise_tiles (state m'))) + D) a \<le> 1"
      using c unfolding q by (cases "a = j") simp_all
  qed
  moreover have "\<And>a. a \<in># mset (concat (denoise_tiles (state m'))) + D \<Longrightarrow>
          0 \<le> a \<and> a < int (length (tiles (state m')))
          \<and> 2 \<le> TileState_value (t_state (tiles (state m') ! nat a))"
  proof -
    fix a assume "a \<in># mset (concat (denoise_tiles (state m'))) + D"
    then have "a = j \<or> a \<in># mset (concat (denoise_tiles (state m))) + D" unfolding q by auto
    then show "0 \<le> a \<and> a < int (length (tiles (state m')))
          \<and> 2 \<le> TileState_value (t_state (tiles (state m') ! nat a))"
      using ok inv unfolding dispatch_inv_def by (auto simp: m')
  qed
  moreover have "\<And>a. count (mset (concat (render_tiles (state m'))) + R) a \<le> 1"
    using inv unfolding dispatch_inv_def by (simp add: m')
  ultimately show ?thesis unfolding dispatch_inv_def by blast
qed

lemma return_tile_render_neighbor_dispatch_inv:
  assumes r: "return_tile_render_neighbor tile_w tile_h index n m = Some m'"
    and inv: "dispatch_inv m R D"
  shows "dispatch_inv m' R D"
proof -
  from r consider (same) "m' = m"
    | (push) nindex tn m1 tn1 where "tile_at m nindex = Some tn" "t_state tn = RENDERED"
        "tile_update nindex (\<lambda>t. t\<lparr>t_state := DENOISE\<rparr>) m = Some m1"
        "tile_at m1 nindex = Some tn1" "denoise_push_back (t_device tn1) nindex m1 = Some m'"
    unfolding return_tile_render_neighbor_def Let_def
    by (auto simp: bind_eq_Some_conv split: if_splits)
  then show ?thesis
  proof cases
    case same
    then show ?thesis using inv by simp
  next
    case push
    from tile_at_SomeD[OF push(1)] push(2)
    have n: "0 \<le> nindex" "nindex < int (length (tiles (state m)))"
        "t_state (tiles (state m) ! nat nindex) = RENDERED" by simp_all
    have new: "nindex \<notin># mset (concat (denoise_tiles (state m))) + D"
    proof
      assume "nindex \<in># mset (concat (denoise_tiles (state m))) + D"
      then have "2 \<le> TileState_value (t_state (tiles (state m) ! nat nindex))"
        using inv unfolding dispatch_inv_def by blast
      then show False using n(3) by simp
    qed
    have inv1: "dispatch_inv m1 R D"
      using tile_update_dispatch_inv[OF push(3) inv] by simp
    from tile_update_SomeD[OF push(3)]
    have m1: "m1 = m\<lparr>state := (state m)\<lparr>tiles := (tiles (state m))[nat nindex :=
                (tiles (state m) ! nat nindex)\<lparr>t_state := DENOISE\<rparr>]\<rparr>\<rparr>" by simp
    have new1: "nindex \<notin># mset (concat (denoise_tiles (state m1))) + D"
      using new by (simp add: m1)
    have ok1: "nindex < int (length (tiles (state m1)))"
        "2 \<le> TileState_value (t_state (tiles (state m1) ! nat nindex))"
      using n by (simp_all add: m1)
    show ?thesis
      using denoise_push_back_dispatch_inv[OF push(5) inv1 new1 n(1) ok1] .
  qed
qed

lemma return_tile_denoise_neighbor_dispatch_inv:
  assumes r: "return_tile_denoise_neighbor tile_w tile_h index n (m, b) = Some (m', b')"
    and inv: "dispatch_inv m R D"
  shows "dispatch_inv m' R D"
proof -
  from r consider (same) "m' = m"
    | (done1) nindex where "tile_update nindex (\<lambda>t. t\<lparr>t_state := DONE\<rparr>) m = Some m'"
    | (done2) nindex m1 where "tile_update nindex (\<lambda>t. t\<lparr>t_state := DONE\<rparr>) m = Some m1"
        "tile_update nindex (\<lambda>t. t\<lparr>t_buffers := None\<rparr>) m1 = Some m'"
    unfolding return_tile_denoise_neighbor_def Let_def
    by (auto simp: bind_eq_Some_conv split: if_splits)
  then show ?thesis
  proof cases
    case same
    then show ?thesis using inv by simp
  next
    case done1
    then show ?thesis using tile_update_dispatch_inv[OF _ inv] by simp
  next
    case done2
    have inv1: "dispatch_inv m1 R D" using tile_update_dispatch_inv[OF done2(1) inv] by simp
    show ?thesis
    proof (rule tile_update_dispatch_inv[OF done2(2) inv1])
      assume "nindex \<in># mset (concat (denoise_tiles (state m1))) + D"
      then have "2 \<le> TileState_value (t_state (tiles (state m1) ! nat nindex))"
        using inv1 unfolding dispatch_inv_def by blast
      then show "2 \<le> TileState_value (t_state ((tiles (state m1) ! nat nindex)\<lparr>t_buffers := None\<rparr>))"
        by simp
    qed
  qed
qed

lemma return_tile_dispatch_inv:
  assumes r: "return_tile index m = Some (res, m')" and inv: "dispatch_inv m R D"
  shows "dispatch_inv m' R D"
proof -
  let ?rn = "\<lambda>tile_w tile_h. return_tile_render_neighbor tile_w tile_h index"
  let ?dn = "\<lambda>tile_w tile_h. return_tile_denoise_neighbor tile_w tile_h index"
  from r consider
      (a) "tile_update index (\<lambda>t. t\<lparr>t_state := DONE\<rparr>) m = Some m'"
    | (b) t m1 tile_w tile_h where "tile_at m index = Some t" "t_state t = RENDER"
        "tile_update index (\<lambda>t. t\<lparr>t_state := RENDERED\<rparr>) m = Some m1"
        "foldM (?rn tile_w tile_h) [0..<9] m1 = Some m'"
    | (c) m1 tile_w tile_h st where "tile_update index (\<lambda>t. t\<lparr>t_state := DENOISED\<rparr>) m = Some m1"
        "foldM (?dn tile_w tile_h) [0..<9] (m1, False) = Some st" "m' = fst st"
    unfolding return_tile_def Let_def
    by (auto simp: bind_eq_Some_conv split: if_splits TileState.splits)
       (meson TileState.exhaust)+
  then show ?thesis
  proof cases
    case a
    then show ?thesis using tile_update_dispatch_inv[OF _ inv] by simp
  next
    case b
    from tile_at_SomeD[OF b(1)] b(2)
    have s: "t_state (tiles (state m) ! nat index) = RENDER" by simp
    have inv1: "dispatch_inv m1 R D"
    proof (rule tile_update_dispatch_inv[OF b(3) inv])
      assume "index \<in># mset (concat (denoise_tiles (state m))) + D"
      then have "2 \<le> TileState_value (t_state (tiles (state m) ! nat index))"
        using inv unfolding dispatch_inv_def by blast
      then show "2 \<le> TileState_value (t_state ((tiles (state m) ! nat index)\<lparr>t_state := RENDERED\<rparr>))"
        using s by simp
    qed
    show ?thesis
      using foldM_preserves[where P = "\<lambda>m. dispatch_inv m R D", OF _ b(4) inv1]
        return_tile_render_neighbor_dispatch_inv by blast
  next
    case c
    have inv1: "dispatch_inv m1 R D" using tile_update_dispatch_inv[OF c(1) inv] by simp
    have "dispatch_inv (fst st) R D"
      using foldM_preserves[where P = "\<lambda>s. dispatch_inv (fst s) R D", OF _ c(2)] inv1
        return_tile_denoise_neighbor_dispatch_inv by (metis fst_conv prod.collapse)
    then show ?thesis using c(3) by simp
  qed
qed

lemma next_tile_dispatch_inv:
  assumes r: "next_tile dev m = Some (res, m')" and inv: "dispatch_inv m R D"
  defines "ds \<equiv> (case res of None \<Rightarrow> [] | Some idx \<Rightarrow> [(from_denoise_queue dev m, idx)])"
  shows "dispatch_inv m' (R + mset (map snd (filter (\<lambda>x. \<not> fst x) ds)))
           (D + mset (map snd (filter fst ds)))"
proof -
  define l where "l = size_t_of_int (if preserve_tile_device m then dev else 0)"
  show ?thesis
  proof (cases "l \<ge> length (render_tiles (state m))")
    case True
    then have "res = None" "m' = m" using r by (simp_all add: next_tile_def l_def)
    then show ?thesis using inv by (simp add: ds_def)
  next
    case False
    then have l: "l < length (render_tiles (state m))" "l < length (denoise_tiles (state m))"
      using r by (auto simp: next_tile_def l_def[symmetric] Let_def split: if_splits)
    show ?thesis
    proof (cases "denoise_tiles (state m) ! l \<noteq> []")
      case True
      let ?idx = "hd (denoise_tiles (state m) ! l)"
      let ?m1 = "m\<lparr>state := (state m)\<lparr>denoise_tiles :=
                       (denoise_tiles (state m))[l := tl (denoise_tiles (state m) ! l)]\<rparr>\<rparr>"
      let ?m2 = "if only_denoise ?m1
                 then ?m1\<lparr>state := (state ?m1)\<lparr>num_rendered_tiles :=
                             num_rendered_tiles (state ?m1) + 1\<rparr>\<rparr>
                 else ?m1"
      have e: "res = Some ?idx" "m' = ?m2"
        using r l True by (simp_all add: next_tile_def l_def[symmetric] Let_def)
      have fd: "from_denoise_queue dev m" using l True by (simp add: from_denoise_queue_def l_def)
      have q: "mset (concat (denoise_tiles (state m))) =
          mset (concat (denoise_tiles (state ?m2))) + {#?idx#}"
        using mset_concat_pop[OF l(2) True] by simp
      have "dispatch_inv ?m2 R (D + {#?idx#})"
        using inv unfolding dispatch_inv_def q by (simp add: ac_simps)
      then show ?thesis using e fd by (simp add: ds_def)
    next
      case dn: False
      then have nfd: "\<not> from_denoise_queue dev m" by (simp add: from_denoise_queue_def l_def)
      show ?thesis
      proof (cases "render_tiles (state m) ! l = []")
        case True
        then have "res = None" "m' = m"
          using r l dn by (simp_all add: next_tile_def l_def[symmetric] Let_def)
        then show ?thesis using inv by (simp add: ds_def)
      next
        case False
        let ?idx = "hd (render_tiles (state m) ! l)"
        let ?m1 = "m\<lparr>state := (state m)\<lparr>render_tiles :=
                       (render_tiles (state m))[l := tl (render_tiles (state m) ! l)]\<rparr>\<rparr>"
        let ?m2 = "?m1\<lparr>state := (state ?m1)\<lparr>num_rendered_tiles :=
                                    num_rendered_tiles (state ?m1) + 1\<rparr>\<rparr>"
        have e: "res = Some ?idx" "m' = ?m2"
          using r l dn False by (simp_all add: next_tile_def l_def[symmetric] Let_def)
        have q: "mset (concat (render_tiles (state m))) =
            mset (concat (render_tiles (state ?m2))) + {#?idx#}"
          using mset_concat_pop[OF l(1) False] by simp
        have "dispatch_inv ?m2 (R + {#?idx#}) D"
          using inv unfolding dispatch_inv_def q by (simp add: ac_simps)
        then show ?thesis using e nfd by (simp add: ds_def)
      qed
    qed
  qed
qed

lemma dispatches_dispatch_inv:
  "dispatches calls m = Some (ds, m') \<Longrightarrow> dispatch_inv m R D \<Longrightarrow>
   dispatch_inv m' (R + mset (map snd (filter (\<lambda>x. \<not> fst x) ds)))
     (D + mset (map snd (filter fst ds)))"
proof (induction calls arbitrary: m R D ds)
  case Nil
  then show ?case by simp
next
  case (Cons c calls)
  show ?case
  proof (cases c)
    case (NextTile dev)
    from Cons.prems(1) NextTile obtain res m1 ds1 where
      n: "next_tile dev m = Some (res, m1)" and d: "dispatches calls m1 = Some (ds1, m')"
      and ds: "ds = (case res of None \<Rightarrow> [] | Some idx \<Rightarrow> [(from_denoise_queue dev m, idx)]) @ ds1"
      by (auto simp: bind_eq_Some_conv)
    let ?d0 = "(case res of None \<Rightarrow> [] | Some idx \<Rightarrow> [(from_denoise_queue dev m, idx)])"
    from Cons.IH[OF d next_tile_dispatch_inv[OF n Cons.prems(2)]]
    show ?thesis unfolding ds by (simp add: ac_simps)
  next
    case (ReturnTile index)
    from Cons.prems(1) ReturnTile obtain res m1 where
      n: "return_tile index m = Some (res, m1)" and d: "dispatches calls m1 = Some (ds, m')"
      by (auto simp: bind_eq_Some_conv)
    from Cons.IH[OF d return_tile_dispatch_inv[OF n Cons.prems(2)]] show ?thesis .
  qed
qed

lemma distinct_tagged:
  "distinct (map snd (filter fst ds)) \<Longrightarrow> distinct (map snd (filter (\<lambda>x. \<not> fst x) ds)) \<Longrightarrow>
   distinct ds"
proof (induction ds)
  case Nil
  then show ?case by simp
next
  case (Cons a ds)
  obtain b j where a: "a = (b, j)" by (cases a) auto
  show ?case using Cons a by (cases b) (auto simp: image_iff)
qed

lemma dispatches_distinct:
  assumes d: "dispatches calls m = Some (ds, m')" and inv: "dispatch_inv m {#} {#}"
  shows "distinct ds"
proof -
  from dispatches_dispatch_inv[OF d inv]
  have i: "dispatch_inv m' (mset (map snd (filter (\<lambda>x. \<not> fst x) ds)))
             (mset (map snd (filter fst ds)))" by simp
  have "distinct (map snd (filter fst ds))"
  proof (rule distinct_mset_subset)
    show "mset (map snd (filter fst ds)) \<subseteq>#
        mset (concat (denoise_tiles (state m'))) + mset (map snd (filter fst ds))" by simp
    show "\<And>a. count (mset (concat (denoise_tiles (state m'))) + mset (map snd (filter fst ds))) a
        \<le> 1" using i unfolding dispatch_inv_def by blast
  qed
  moreover have "distinct (map snd (filter (\<lambda>x. \<not> fst x) ds))"
  proof (rule distinct_mset_subset)
    show "mset (map snd (filter (\<lambda>x. \<not> fst x) ds)) \<subseteq>#
        mset (concat (render_tiles (state m'))) + mset (map snd (filter (\<lambda>x. \<not> fst x) ds))"
      by simp
    show "\<And>a. count (mset (concat (render_tiles (state m')))
        + mset (map snd (filter (\<lambda>x. \<not> fst x) ds))) a \<le> 1"
      using i unfolding dispatch_inv_def by blast
  qed
  ultimately show ?thesis by (rule distinct_tagged)
qed

lemma gen_ready_dispatch_inv:
  assumes "gen_ready m" "\<And>a. count (queued m) a \<le> 1"
  shows "dispatch_inv m {#} {#}"
proof -
  have r: "\<And>a. count (mset (concat (render_tiles (state m)))) a \<le> 1"
  proof -
    fix a show "count (mset (concat (render_tiles (state m)))) a \<le> 1"
      using assms(2)[of a] by (simp add: queued_def)
  qed
  have d: "\<And>a. count (mset (concat (denoise_tiles (state m)))) a \<le> 1"
  proof -
    fix a show "count (mset (concat (denoise_tiles (state m)))) a \<le> 1"
      using assms(2)[of a] by (simp add: queued_def)
  qed
  have "\<And>j. j \<in> set (concat (denoise_tiles (state m))) \<Longrightarrow>
      0 \<le> j \<and> j < int (length (tiles (state m)))
      \<and> 2 \<le> TileState_value (t_state (tiles (state m) ! nat j))"
    using assms(1) unfolding gen_ready_def by (auto split: if_splits)
  then show ?thesis using r d unfolding dispatch_inv_def by simp
qed

text \<open>
  Claim C2, as stated, fails: with \<open>schedule_denoising\<close> a rendered tile that has been
  returned is queued again, for denoising.  In the single-tile scenario \<open>next_tile\<close> hands
  out tile 0, \<open>return_tile\<close> takes it back, and the next \<open>next_tile\<close> hands out tile 0 again,
  with no tile generation in between.
\<close>

theorem next_tile_twice_counterexample:
  "map_option fst (single_tile_scenario \<bind> run_calls [NextTile 0, ReturnTile 0, NextTile 0])
     = Some [Some 0, Some 0]"
  by code_simp

text \<open>
  Claim C2, amended.  In background mode, or with a single logical device, for every tile
  order: after \<open>set_tiles\<close>, as long as no tile is returned, the calls of \<open>next_tile\<close> (for
  any devices, in any order) all return, and no two of them yield the same tile; and in
  every run of calls of \<open>next_tile\<close> and \<open>return_tile\<close> that follows \<open>set_tiles\<close>, no tile is
  handed out twice from a render queue and no tile is handed out twice from a denoise
  queue.
\<close>

theorem next_tile_distinct:
  assumes "well_configured m"
    and "background m \<or> \<not> preserve_tile_device m \<or> num_devices m = 1"
  shows "\<exists>m1. set_tiles uninit m = Some m1
     \<and> (\<exists>rs m2. next_tiles devs m1 = Some (rs, m2) \<and> distinct (List.map_filter (\<lambda>r. r) rs))
     \<and> (case dispatches calls m1 of None \<Rightarrow> True | Some (ds, m2) \<Rightarrow> distinct ds)"
proof -
  let ?ih = "max 1 (cdiv (height (params m)) (resolution_divider (state m)))"
  let ?num = "min ?ih (if preserve_tile_device m then num_devices m else 1)"
  have one: "(if background m then 1 else ?num) = 1" using assms(2) by auto
  from set_tiles_returns[OF assms(1), of uninit] one
  obtain m1 where m1: "set_tiles uninit m = Some m1"
      "length (render_tiles (state m1)) = nat ?num" "length (denoise_tiles (state m1)) = nat ?num"
      "\<And>a. count (queued m1) a \<le> 1" "gen_ready m1"
    by auto
  have len: "length (render_tiles (state m1)) = length (denoise_tiles (state m1))"
    using m1(2,3) by simp
  from next_tiles_queued[OF len, of devs]
  obtain rs m2 where m2: "next_tiles devs m1 = Some (rs, m2)"
      "queued m1 = queued m2 + mset (List.map_filter (\<lambda>r. r) rs)" by blast
  have "mset (List.map_filter (\<lambda>r. r) rs) \<subseteq># queued m1"
    using m2(2) by simp
  then have d1: "distinct (List.map_filter (\<lambda>r. r) rs)"
    using m1(4) by (rule distinct_mset_subset)
  have inv: "dispatch_inv m1 {#} {#}" using m1(5,4) by (rule gen_ready_dispatch_inv)
  have d2: "case dispatches calls m1 of None \<Rightarrow> True | Some (ds, m2) \<Rightarrow> distinct ds"
  proof (cases "dispatches calls m1")
    case None
    then show ?thesis by simp
  next
    case (Some r)
    obtain ds m3 where r: "r = (ds, m3)" by (cases r) auto
    show ?thesis using dispatches_distinct[OF Some[unfolded r] inv] Some r by simp
  qed
  show ?thesis using m1(1) m2(1) d1 d2 by blast
qed

theorem next_tile_distinct_witness:
  "\<exists>m1. set_tiles unset_tile
          ((the (TileManager_new BufferParams_zero 0 False 1 (32, 32) INT_MAX True True
                   TILE_RIGHT_TO_LEFT 2 False
                 \<bind> reset BufferParams_zero (image_params 160 32) 1))
             \<lparr>schedule_denoising := True\<rparr>) = Some m1
     \<and> (\<exists>rs m2. next_tiles [0, 1, 1, 0, 5, 0, 1, 0] m1 = Some (rs, m2)
            \<and> distinct (List.map_filter (\<lambda>r. r) rs))
     \<and> (\<exists>m2. dispatches [NextTile 0, NextTile 1, NextTile 0, ReturnTile 2, ReturnTile 1,
                          NextTile 0, ReturnTile 3, ReturnTile 0, NextTile 0, NextTile 0,
                          NextTile 1, NextTile 1] m1
              = Some ([(False, 2), (False, 3), (False, 1), (False, 0), (True, 2), (True, 1),
                       (False, 4)], m2)
            \<and> distinct [(False, 2), (False, 3), (False, 1), (False, 0), (True, 2), (True, 1),
                         (False, 4 :: int)])"
proof -
  let ?m = "(the (TileManager_new BufferParams_zero 0 False 1 (32, 32) INT_MAX True True
                   TILE_RIGHT_TO_LEFT 2 False
                 \<bind> reset BufferParams_zero (image_params 160 32) 1))
             \<lparr>schedule_denoising := True\<rparr>"
  let ?calls = "[NextTile 0, NextTile 1, NextTile 0, ReturnTile 2, ReturnTile 1,
                 NextTile 0, ReturnTile 3, ReturnTile 0, NextTile 0, NextTile 0,
                 NextTile 1, NextTile 1]"
  let ?ds = "[(False, 2), (False, 3), (False, 1), (False, 0), (True, 2), (True, 1),
              (False, 4 :: int)]"
  have a: "well_configured ?m" by code_simp
  have "background ?m" by code_simp
  then have b: "background ?m \<or> \<not> preserve_tile_device ?m \<or> num_devices ?m = 1" by simp
  from next_tile_distinct[OF a b, of unset_tile "[0, 1, 1, 0, 5, 0, 1, 0]" ?calls]
  obtain m1 where m1: "set_tiles unset_tile ?m = Some m1"
      "\<exists>rs m2. next_tiles [0, 1, 1, 0, 5, 0, 1, 0] m1 = Some (rs, m2)
         \<and> distinct (List.map_filter (\<lambda>r. r) rs)"
      "case dispatches ?calls m1 of None \<Rightarrow> True | Some (ds, m2) \<Rightarrow> distinct ds"
    by blast
  have "map_option fst (set_tiles unset_tile ?m \<bind> dispatches ?calls) = Some ?ds"
    by code_simp
  then obtain m2 where m2: "dispatches ?calls m1 = Some (?ds, m2)"
    unfolding m1(1) by auto
  have "distinct ?ds" using m1(3) unfolding m2 by simp
  then show ?thesis using m1(1,2) m2 by blast
qed

end
